theory Spec2Isabelle
  imports Main "HOL-Library.Word" "HOL-Library.AList"
begin

section \<open>Data model\<close>

text \<open>
  A token is the 64-bit unsigned digest returned by \<^verbatim>\<open>xxhash.xxh3_64_intdigest\<close>.
  The digest function belongs to the xxhash library, not to this repository: every
  operation that hashes takes it as the parameter \<open>h64\<close>, which stands for
  \<^verbatim>\<open>h64(data, seed)\<close> of \<^verbatim>\<open>consistent_hash_ring.py\<close> on a byte buffer. A byte buffer is a
  \<open>string\<close>: a list of 8-bit characters.
\<close>

type_synonym token = "64 word"
type_synonym hash_fn = "string \<Rightarrow> int \<Rightarrow> token"

text \<open>
  A Python \<^verbatim>\<open>str\<close> is a sequence of code points below \<open>0x110000\<close>, lone surrogates
  included. Node ids, zones and labels are such strings. A key is a UTF-8 string and is
  held as the bytes of its encoding, so that \<^verbatim>\<open>key.encode("utf-8")\<close> is the key itself.
\<close>

type_synonym pystr = "nat list"

text \<open>The \<^verbatim>\<open>str\<close> of an ASCII literal.\<close>

definition ascii :: "string \<Rightarrow> pystr" where
  "ascii s = map of_char s"

datatype error =
    ValueError pystr
  | ZeroDivisionError
  | IndexError
  | AttributeError string
  | TypeError string
  | UnicodeEncodeError string

text \<open>The frozen dataclass \<^verbatim>\<open>Node\<close>; its field \<^verbatim>\<open>id\<close> is \<open>id_node\<close> here.\<close>

record Node =
  id_node :: pystr
  weight :: int
  zone :: "pystr option"
  labels :: "(pystr \<times> pystr) list option"

text \<open>
  The fields of a \<^verbatim>\<open>ConsistentHasher\<close> object. The dict \<^verbatim>\<open>_nodes\<close> is an association
  list in insertion order; \<open>AList.update\<close> overwrites in place or appends, as a Python
  dict assignment does, and \<open>AList.delete\<close> is \<^verbatim>\<open>pop\<close>.
\<close>

record ConsistentHasher =
  seed :: int
  vn_per_weight :: int
  ring :: "(token \<times> Node) list"
  sorted_tokens :: "token list"
  nodes :: "(pystr \<times> Node) list"

section \<open>Library functions the ring relies on\<close>

text \<open>Decimal rendering of a non-negative integer, as an f-string does.\<close>

definition digit_char :: "nat \<Rightarrow> char" where
  "digit_char d = char_of (48 + d)"

function decimal :: "nat \<Rightarrow> string" where
  "decimal n = (if n < 10 then [digit_char n] else decimal (n div 10) @ [digit_char (n mod 10)])"
  by pat_completeness auto
termination
  by (relation "measure (\<lambda>n. n)") auto

declare decimal.simps [simp del]

text \<open>
  \<^verbatim>\<open>str.encode("utf-8")\<close>: one to four bytes for each code point. A surrogate
  (\<open>0xD800\<close> to \<open>0xDFFF\<close>) has no UTF-8 form and the call raises \<^verbatim>\<open>UnicodeEncodeError\<close>.
\<close>

definition utf8_char :: "nat \<Rightarrow> error + string" where
  "utf8_char cp =
     (if cp < 0x80 then Inr [char_of cp]
      else if cp < 0x800 then Inr [char_of (0xC0 + cp div 64), char_of (0x80 + cp mod 64)]
      else if 0xD800 \<le> cp \<and> cp < 0xE000
        then Inl (UnicodeEncodeError ''surrogates not allowed'')
      else if cp < 0x10000
        then Inr [char_of (0xE0 + cp div 4096), char_of (0x80 + cp div 64 mod 64),
                  char_of (0x80 + cp mod 64)]
      else Inr [char_of (0xF0 + cp div 262144), char_of (0x80 + cp div 4096 mod 64),
                char_of (0x80 + cp div 64 mod 64), char_of (0x80 + cp mod 64)])"

fun utf8_encode :: "pystr \<Rightarrow> error + string" where
  "utf8_encode [] = Inr []"
| "utf8_encode (cp # cps) =
     (case utf8_char cp of
        Inl e \<Rightarrow> Inl e
      | Inr bs \<Rightarrow>
          (case utf8_encode cps of
             Inl e \<Rightarrow> Inl e
           | Inr rest \<Rightarrow> Inr (bs @ rest)))"

text \<open>A string that \<^verbatim>\<open>encode\<close> accepts.\<close>

definition encodable :: "pystr \<Rightarrow> bool" where
  "encodable s = (case utf8_encode s of Inl e \<Rightarrow> False | Inr bs \<Rightarrow> True)"

text \<open>
  \<^verbatim>\<open>bisect.bisect_left\<close> and \<^verbatim>\<open>bisect.bisect\<close> (which is \<^verbatim>\<open>bisect_right\<close>) of the standard
  library, as the binary searches they are:
  \<^verbatim>\<open>
  while lo < hi:
      mid = (lo + hi) // 2
      if a[mid] < x: lo = mid + 1      # bisect_left
      else: hi = mid
  \<close>
  and, for \<^verbatim>\<open>bisect_right\<close>, \<^verbatim>\<open>if x < a[mid]: hi = mid else: lo = mid + 1\<close>. Both start
  from \<open>lo = 0\<close> and \<open>hi = len(a)\<close>, so \<open>mid\<close> is always a valid index.
\<close>

function bisect_left_loop :: "'a::linorder list \<Rightarrow> 'a \<Rightarrow> nat \<Rightarrow> nat \<Rightarrow> nat" where
  "bisect_left_loop a x lo hi =
     (if lo < hi then
        (if a ! ((lo + hi) div 2) < x
         then bisect_left_loop a x ((lo + hi) div 2 + 1) hi
         else bisect_left_loop a x lo ((lo + hi) div 2))
      else lo)"
  by pat_completeness auto
termination
  by (relation "measure (\<lambda>(a, x, lo, hi). hi - lo)") auto

declare bisect_left_loop.simps [simp del]

definition bisect_left :: "'a::linorder list \<Rightarrow> 'a \<Rightarrow> nat" where
  "bisect_left a x = bisect_left_loop a x 0 (length a)"

function bisect_right_loop :: "'a::linorder list \<Rightarrow> 'a \<Rightarrow> nat \<Rightarrow> nat \<Rightarrow> nat" where
  "bisect_right_loop a x lo hi =
     (if lo < hi then
        (if x < a ! ((lo + hi) div 2)
         then bisect_right_loop a x lo ((lo + hi) div 2)
         else bisect_right_loop a x ((lo + hi) div 2 + 1) hi)
      else lo)"
  by pat_completeness auto
termination
  by (relation "measure (\<lambda>(a, x, lo, hi). hi - lo)") auto

declare bisect_right_loop.simps [simp del]

definition bisect_right :: "'a::linorder list \<Rightarrow> 'a \<Rightarrow> nat" where
  "bisect_right a x = bisect_right_loop a x 0 (length a)"

text \<open>\<^verbatim>\<open>list.insert(idx, x)\<close>; an index past the end appends.\<close>

definition list_insert :: "nat \<Rightarrow> 'a \<Rightarrow> 'a list \<Rightarrow> 'a list" where
  "list_insert idx x xs = take idx xs @ x # drop idx xs"

section \<open>The ring: \<^verbatim>\<open>consistent_hash_ring.py\<close>\<close>

text \<open>
  \<^verbatim>\<open>key_hash\<close> hashes \<^verbatim>\<open>key.encode("utf-8")\<close>; the key is a UTF-8 string, held as those bytes.
\<close>

definition key_hash :: "hash_fn \<Rightarrow> string \<Rightarrow> int \<Rightarrow> token" where
  "key_hash h64 key sd = h64 key sd"

definition init_ring :: "int \<Rightarrow> int \<Rightarrow> ConsistentHasher" where
  "init_ring virtual_nodes_per_weight sd =
     \<lparr>seed = sd, vn_per_weight = max 1 virtual_nodes_per_weight,
      ring = [], sorted_tokens = [], nodes = []\<rparr>"

definition vn_count :: "ConsistentHasher \<Rightarrow> Node \<Rightarrow> int" where
  "vn_count r node = vn_per_weight r * max 1 (weight node)"

text \<open>
  \<^verbatim>\<open>_token_for_vn\<close> encodes the f-string \<^verbatim>\<open>f"{node_id}#{replica_idx}"\<close> and hashes the bytes;
  the encoding raises when the node id cannot be encoded.
\<close>

definition token_for_vn :: "hash_fn \<Rightarrow> ConsistentHasher \<Rightarrow> pystr \<Rightarrow> nat \<Rightarrow> error + token" where
  "token_for_vn h64 r node_id replica_idx =
     (case utf8_encode (node_id @ ascii ''#'' @ ascii (decimal replica_idx)) of
        Inl e \<Rightarrow> Inl e
      | Inr data \<Rightarrow> Inr (h64 data (seed r)))"

definition insert_token :: "token \<Rightarrow> Node \<Rightarrow> ConsistentHasher \<Rightarrow> ConsistentHasher" where
  "insert_token tok node r =
     (let idx = bisect_left (sorted_tokens r) tok
      in r\<lparr>sorted_tokens := list_insert idx tok (sorted_tokens r),
           ring := list_insert idx (tok, node) (ring r)\<rparr>)"

text \<open>
  The loop \<^verbatim>\<open>for i in range(vn)\<close> of \<^verbatim>\<open>add_node\<close>, over the list of its indices. An exception
  of \<^verbatim>\<open>_token_for_vn\<close> ends the loop and leaves the tokens inserted so far in place.
\<close>

fun add_node_loop ::
  "hash_fn \<Rightarrow> Node \<Rightarrow> nat list \<Rightarrow> ConsistentHasher \<Rightarrow> error option \<times> ConsistentHasher"
where
  "add_node_loop h64 node [] r = (None, r)"
| "add_node_loop h64 node (i # idxs) r =
     (case token_for_vn h64 r (id_node node) i of
        Inl e \<Rightarrow> (Some e, r)
      | Inr tok \<Rightarrow> add_node_loop h64 node idxs (insert_token tok node r))"

text \<open>
  \<open>add_node\<close> returns the exception it raised, if any, together with the state the
  object is left in. The node is stored in \<^verbatim>\<open>_nodes\<close> before the loop starts.
\<close>

definition add_node ::
  "hash_fn \<Rightarrow> pystr \<Rightarrow> int \<Rightarrow> pystr option \<Rightarrow> ConsistentHasher \<Rightarrow> error option \<times> ConsistentHasher"
where
  "add_node h64 node_id w z r =
     (let node = \<lparr>id_node = node_id, weight = w, zone = z, labels = None\<rparr>
      in if map_of (nodes r) (id_node node) \<noteq> None
         then (Some (ValueError (ascii ''Node '' @ id_node node @ ascii '' already exists'')), r)
         else
           (let r1 = r\<lparr>nodes := AList.update (id_node node) node (nodes r)\<rparr>;
                vn = vn_count r1 node
            in add_node_loop h64 node [0..<nat vn] r1))"

definition remove_node :: "pystr \<Rightarrow> ConsistentHasher \<Rightarrow> ConsistentHasher" where
  "remove_node node_id r =
     (case map_of (nodes r) node_id of
        None \<Rightarrow> r
      | Some node \<Rightarrow>
          (let new_ring = filter (\<lambda>(t, n). id_node n \<noteq> node_id) (ring r);
               ring' = sort_key fst new_ring
           in r\<lparr>nodes := AList.delete node_id (nodes r),
                ring := ring',
                sorted_tokens := map fst ring'\<rparr>))"

definition get_node :: "hash_fn \<Rightarrow> string \<Rightarrow> ConsistentHasher \<Rightarrow> error + pystr option" where
  "get_node h64 key r =
     (if ring r = [] then Inr None
      else
        (let tok = key_hash h64 key (seed r)
         in if length (sorted_tokens r) = 0 then Inl ZeroDivisionError
            else
              (let idx = bisect_right (sorted_tokens r) tok mod length (sorted_tokens r)
               in if idx < length (ring r)
                  then Inr (Some (id_node (snd (ring r ! idx))))
                  else Inl IndexError)))"

definition size_ring :: "ConsistentHasher \<Rightarrow> nat" where
  "size_ring r = length (nodes r)"

definition nodes_list :: "ConsistentHasher \<Rightarrow> pystr list" where
  "nodes_list r = map fst (nodes r)"

definition dump_tokens :: "ConsistentHasher \<Rightarrow> (token \<times> pystr) list" where
  "dump_tokens r = map (\<lambda>(t, n). (t, id_node n)) (ring r)"

text \<open>
  The replica walk of \<^verbatim>\<open>get_nodes_for_key\<close>: the inner \<^verbatim>\<open>while len(out) < replicas and n > 0\<close>
  loop, started at position \<open>i\<close>. Python puts no bound on the number of iterations, so the
  loop is a partial function: \<open>None\<close> is a walk that never returns.
\<close>

partial_function (option) walk ::
  "(token \<times> Node) list \<Rightarrow> nat \<Rightarrow> int \<Rightarrow> nat \<Rightarrow> pystr list \<Rightarrow> pystr set
   \<Rightarrow> (error + pystr list \<times> pystr set) option"
where
  "walk rg n replicas i out seen =
     (if int (length out) < replicas \<and> 0 < n then
        (if i mod n < length rg then
           (if id_node (snd (rg ! (i mod n))) \<notin> seen
            then walk rg n replicas (i + 1)
                   (out @ [id_node (snd (rg ! (i mod n)))])
                   (insert (id_node (snd (rg ! (i mod n)))) seen)
            else walk rg n replicas (i + 1) out seen)
         else Some (Inl IndexError))
      else Some (Inr (out, seen)))"

declare walk.simps [code]

text \<open>The outer \<^verbatim>\<open>for s in starts\<close> loop with its \<^verbatim>\<open>break\<close>.\<close>

fun probe_loop ::
  "(token \<times> Node) list \<Rightarrow> nat \<Rightarrow> int \<Rightarrow> nat list \<Rightarrow> pystr list \<Rightarrow> pystr set
   \<Rightarrow> (error + pystr list) option"
where
  "probe_loop rg n replicas [] out seen = Some (Inr out)"
| "probe_loop rg n replicas (s # starts) out seen =
     (case walk rg n replicas s out seen of
        None \<Rightarrow> None
      | Some (Inl e) \<Rightarrow> Some (Inl e)
      | Some (Inr (out', seen')) \<Rightarrow>
          if replicas \<le> int (length out') then Some (Inr out')
          else probe_loop rg n replicas starts out' seen')"

definition probe_starts :: "hash_fn \<Rightarrow> string \<Rightarrow> int \<Rightarrow> ConsistentHasher \<Rightarrow> nat list" where
  "probe_starts h64 key multiprobe r =
     map (\<lambda>p. bisect_right (sorted_tokens r) (key_hash h64 (key @ ''|'' @ decimal p) (seed r))
               mod length (sorted_tokens r))
         [0..<nat multiprobe]"

definition get_nodes_for_key ::
  "hash_fn \<Rightarrow> string \<Rightarrow> int \<Rightarrow> int \<Rightarrow> ConsistentHasher \<Rightarrow> (error + pystr list) option"
where
  "get_nodes_for_key h64 key replicas multiprobe r =
     (if ring r = [] then Some (Inr [])
      else
        (let n = length (sorted_tokens r)
         in if 0 < multiprobe \<and> n = 0 then Some (Inl ZeroDivisionError)
            else probe_loop (ring r) n replicas (sort (probe_starts h64 key multiprobe r)) [] {}))"

section \<open>\<^verbatim>\<open>clone\<close>: the deep copy of a ring\<close>

text \<open>
  \<^verbatim>\<open>clone\<close> is \<^verbatim>\<open>copy.deepcopy(self)\<close>. \<^verbatim>\<open>ConsistentHasher\<close> defines no \<^verbatim>\<open>__deepcopy__\<close>, so
  the standard library rebuilds the object from a deep copy of its instance dictionary,
  one attribute value after the other in the order \<^verbatim>\<open>__init__\<close> assigned them. An integer is
  its own copy; a list or a dict is copied element by element (a \<^verbatim>\<open>Node\<close> is a frozen
  dataclass of strings and integers); a \<^verbatim>\<open>threading.RLock\<close> has neither \<^verbatim>\<open>__deepcopy__\<close> nor
  pickle support, and \<^verbatim>\<open>deepcopy\<close> raises \<^verbatim>\<open>TypeError\<close> on it.
\<close>

datatype attr_value =
    IntAttr int
  | LockAttr
  | RingAttr "(token \<times> Node) list"
  | TokensAttr "token list"
  | NodesAttr "(pystr \<times> Node) list"

definition instance_dict :: "ConsistentHasher \<Rightarrow> (string \<times> attr_value) list" where
  "instance_dict r =
     [(''_seed'', IntAttr (seed r)),
      (''_vn_per_weight'', IntAttr (vn_per_weight r)),
      (''_lock'', LockAttr),
      (''_ring'', RingAttr (ring r)),
      (''_sorted_tokens'', TokensAttr (sorted_tokens r)),
      (''_nodes'', NodesAttr (nodes r))]"

fun deepcopy_value :: "attr_value \<Rightarrow> error + attr_value" where
  "deepcopy_value LockAttr = Inl (TypeError ''cannot pickle _thread.RLock object'')"
| "deepcopy_value v = Inr v"

fun deepcopy_dict :: "(string \<times> attr_value) list \<Rightarrow> error + (string \<times> attr_value) list" where
  "deepcopy_dict [] = Inr []"
| "deepcopy_dict ((k, v) # kvs) =
     (case deepcopy_value v of
        Inl e \<Rightarrow> Inl e
      | Inr v' \<Rightarrow>
          (case deepcopy_dict kvs of
             Inl e \<Rightarrow> Inl e
           | Inr kvs' \<Rightarrow> Inr ((k, v') # kvs')))"

text \<open>The copy, when there is one, is a new object whose fields are the copied values.\<close>

definition clone :: "ConsistentHasher \<Rightarrow> error + ConsistentHasher" where
  "clone r =
     (case deepcopy_dict (instance_dict r) of
        Inl e \<Rightarrow> Inl e
      | Inr d \<Rightarrow> Inr r)"

section \<open>The ring invariants\<close>

definition ring_inv :: "ConsistentHasher \<Rightarrow> bool" where
  "ring_inv r \<longleftrightarrow>
     1 \<le> vn_per_weight r \<and>
     sorted_tokens r = map fst (ring r) \<and>
     sorted (sorted_tokens r) \<and>
     distinct (map fst (nodes r)) \<and>
     (\<forall>(k, n) \<in> set (nodes r).
        id_node n = k \<and>
        int (length (filter (\<lambda>(t, m). id_node m = k) (ring r))) =
          vn_per_weight r * max 1 (weight n)) \<and>
     (\<forall>(t, m) \<in> set (ring r). map_of (nodes r) (id_node m) = Some m)"

text \<open>
  What holds of the lists \<open>out'\<close> and \<open>seen'\<close> a replica walk returns when it was started
  with \<open>out\<close> and \<open>seen\<close>: used to reason about walks that return.
\<close>

definition walk_post ::
  "(token \<times> Node) list \<Rightarrow> nat \<Rightarrow> int \<Rightarrow> pystr list \<Rightarrow> pystr set \<Rightarrow> pystr list \<Rightarrow> pystr set \<Rightarrow> bool"
where
  "walk_post rg n replicas out seen out' seen' \<longleftrightarrow>
     set out' \<subseteq> set out \<union> (\<lambda>e. id_node (snd e)) ` set rg \<and>
     (\<exists>ys. out' = out @ ys) \<and>
     (seen = set out \<longrightarrow> seen' = set out') \<and>
     (seen = set out \<and> distinct out \<longrightarrow> distinct out') \<and>
     (0 < n \<longrightarrow> replicas \<le> int (length out')) \<and>
     (int (length out) \<le> replicas \<longrightarrow> int (length out') \<le> replicas)"

section \<open>What the searches compute, in the words of the specification\<close>


definition lower_bound :: "'a::linorder list \<Rightarrow> 'a \<Rightarrow> nat" where
  "lower_bound xs x = length (takeWhile (\<lambda>t. t < x) xs)"


section \<open>The planner: \<^verbatim>\<open>rebalance.py\<close>\<close>

type_synonym plan = "(string \<times> (pystr option \<times> pystr option)) list"



section \<open>Artifact hosts and the artifact rebalancer\<close>

text \<open>
  \<^verbatim>\<open>artifact_placement.py\<close>. A host stores each artifact in a file under its base
  directory; the file system is a map from paths to file contents.
\<close>

type_synonym filesystem = "string \<rightharpoonup> string"

record ArtifactHost =
  host_id :: pystr
  base_dir :: string

text \<open>\<^verbatim>\<open>os.path.join\<close> of two components, on a POSIX system.\<close>

definition path_join :: "string \<Rightarrow> string \<Rightarrow> string" where
  "path_join a b =
     (if b \<noteq> [] \<and> hd b = CHR ''/'' then b
      else if a = [] \<or> last a = CHR ''/'' then a @ b
      else a @ ''/'' @ b)"

definition path_for :: "ArtifactHost \<Rightarrow> string \<Rightarrow> string" where
  "path_for h artifact_key =
     (let safe = map (\<lambda>c. if c = CHR '':'' then CHR ''_'' else c) artifact_key
      in path_join (base_dir h) (safe @ ''.bin''))"

definition host_get :: "filesystem \<Rightarrow> ArtifactHost \<Rightarrow> string \<Rightarrow> string option" where
  "host_get fs h artifact_key = fs (path_for h artifact_key)"

text \<open>
  The distributor. The class defines \<^verbatim>\<open>attach_host\<close>, \<^verbatim>\<open>detach_host\<close>, \<^verbatim>\<open>placement\<close> and
  \<^verbatim>\<open>placement_with_ring\<close>, and no other method.
\<close>

record ArtifactDistributor =
  ring_dist :: ConsistentHasher
  replication :: int
  hosts :: "(pystr \<times> ArtifactHost) list"

definition placement_with_ring ::
  "hash_fn \<Rightarrow> ArtifactDistributor \<Rightarrow> string \<Rightarrow> ConsistentHasher
   \<Rightarrow> (error + ArtifactHost option list) option"
where
  "placement_with_ring h64 dist artifact_key rg =
     (case get_nodes_for_key h64 artifact_key (replication dist) 3 rg of
        None \<Rightarrow> None
      | Some (Inl e) \<Rightarrow> Some (Inl e)
      | Some (Inr node_ids) \<Rightarrow>
          Some (Inr (map (\<lambda>nid. map_of (hosts dist) nid)
                         (filter (\<lambda>nid. map_of (hosts dist) nid \<noteq> None) node_ids))))"

text \<open>
  \<^verbatim>\<open>ArtifactRebalancer.execute\<close> of \<^verbatim>\<open>rebalance.py\<close>. The read loop over the old hosts:
  the first non-null \<^verbatim>\<open>get\<close> wins.
\<close>

fun read_first :: "filesystem \<Rightarrow> ArtifactHost option list \<Rightarrow> string \<Rightarrow> string option" where
  "read_first fs [] key = None"
| "read_first fs (None # old_hosts) key = read_first fs old_hosts key"
| "read_first fs (Some h # old_hosts) key =
     (case host_get fs h key of
        Some blob \<Rightarrow> Some blob
      | None \<Rightarrow> read_first fs old_hosts key)"

text \<open>
  The loop over the plan. It returns the exception that ended it, if any, and the file
  system it leaves. The call \<^verbatim>\<open>self.dist.distribute(key, blob)\<close> is a call of a method that
  \<^verbatim>\<open>ArtifactDistributor\<close> does not have: Python raises \<^verbatim>\<open>AttributeError\<close> there.
\<close>

fun execute ::
  "hash_fn \<Rightarrow> ArtifactDistributor \<Rightarrow> filesystem \<Rightarrow> plan \<Rightarrow> ConsistentHasher
   \<Rightarrow> (error option \<times> filesystem) option"
where
  "execute h64 dist fs [] ring_before = Some (None, fs)"
| "execute h64 dist fs ((key, (frm, to)) # moved_artifacts) ring_before =
     (case placement_with_ring h64 dist key ring_before of
        None \<Rightarrow> None
      | Some (Inl e) \<Rightarrow> Some (Some e, fs)
      | Some (Inr old_hosts) \<Rightarrow>
          (case read_first fs old_hosts key of
             None \<Rightarrow> execute h64 dist fs moved_artifacts ring_before
           | Some blob \<Rightarrow>
               Some (Some (AttributeError
                 (''ArtifactDistributor object has no attribute distribute'')), fs)))"

section \<open>Building a ring by a sequence of calls\<close>

text \<open>
  The calls \<^verbatim>\<open>add_node(id, weight, zone)\<close> of a list, made in order on one ring; a call that
  raises leaves the ring as it was and the next call is made on it.
\<close>

definition add_nodes ::
  "hash_fn \<Rightarrow> (pystr \<times> int \<times> pystr option) list \<Rightarrow> ConsistentHasher \<Rightarrow> ConsistentHasher"
where
  "add_nodes h64 calls r = fold (\<lambda>(node_id, w, z) r'. snd (add_node h64 node_id w z r')) calls r"

text \<open>
  Two rings have the same layout when they agree on the configuration, on the token
  list, on the \<open>(token, node id)\<close> list that \<open>dump_tokens\<close> returns and on the ids of
  the id-map, in order.
\<close>

definition same_layout :: "ConsistentHasher \<Rightarrow> ConsistentHasher \<Rightarrow> bool" where
  "same_layout r1 r2 \<longleftrightarrow>
     seed r1 = seed r2 \<and> vn_per_weight r1 = vn_per_weight r2 \<and>
     sorted_tokens r1 = sorted_tokens r2 \<and>
     dump_tokens r1 = dump_tokens r2 \<and>
     nodes_list r1 = nodes_list r2"

section \<open>A small ring for worked examples\<close>

definition node_A :: Node where
  "node_A = \<lparr>id_node = ascii ''node-A'', weight = 1, zone = None, labels = None\<rparr>"

definition node_B :: Node where
  "node_B = \<lparr>id_node = ascii ''node-B'', weight = 1, zone = None, labels = None\<rparr>"

definition demo_ring :: ConsistentHasher where
  "demo_ring =
     \<lparr>seed = 42, vn_per_weight = 2,
      ring = [(10, node_A), (20, node_B), (30, node_A), (40, node_B)],
      sorted_tokens = [10, 20, 30, 40],
      nodes = [(ascii ''node-A'', node_A), (ascii ''node-B'', node_B)]\<rparr>"

text \<open>Two artifact hosts, a file system holding one artifact on the first, and a distributor.\<close>

definition host_1 :: ArtifactHost where
  "host_1 = \<lparr>host_id = ascii ''host-1'', base_dir = ''/data/h1''\<rparr>"

definition host_2 :: ArtifactHost where
  "host_2 = \<lparr>host_id = ascii ''host-2'', base_dir = ''/data/h2''\<rparr>"

definition demo_fs :: filesystem where
  "demo_fs = [''/data/h1/model_v1.bin'' \<mapsto> ''blob'']"

text \<open>The \<^verbatim>\<open>str\<close> of the single code point \<open>0xD800\<close>: a lone surrogate.\<close>

definition lone_surrogate :: pystr where
  "lone_surrogate = [0xD800]"

text \<open>A stand-in for the digest, to run the model on concrete keys.\<close>

definition demo_hash :: hash_fn where
  "demo_hash s sd = of_nat (10 * length s) + of_int (sd mod 10)"

text \<open>
  The ring before the change has \<^verbatim>\<open>host-1\<close> only; the distributor's ring has \<^verbatim>\<open>host-2\<close> too.
\<close>

definition artifact_ring_before :: ConsistentHasher where
  "artifact_ring_before = snd (add_node demo_hash (ascii ''host-1'') 1 None (init_ring 1 0))"

definition demo_dist :: ArtifactDistributor where
  "demo_dist =
     \<lparr>ring_dist = snd (add_node demo_hash (ascii ''host-2'') 1 None artifact_ring_before),
      replication = 1,
      hosts = [(ascii ''host-1'', host_1), (ascii ''host-2'', host_2)]\<rparr>"

section \<open>Strings and their encoding\<close>

lemma ascii_eq_iff [simp]: "ascii s = ascii t \<longleftrightarrow> s = t"
proof -
  have "inj (of_char :: char \<Rightarrow> nat)"
    by (rule injI) simp
  then show ?thesis
    unfolding ascii_def by (simp add: inj_map_eq_map)
qed

lemma utf8_encode_append:
  "utf8_encode (xs @ ys) =
     (case utf8_encode xs of
        Inl e \<Rightarrow> Inl e
      | Inr a \<Rightarrow> (case utf8_encode ys of Inl e \<Rightarrow> Inl e | Inr b \<Rightarrow> Inr (a @ b)))"
  by (induction xs) (simp_all split: sum.splits)

lemma utf8_encode_ascii:
  "\<forall>c \<in> set s. (of_char c :: nat) < 128 \<Longrightarrow> utf8_encode (ascii s) = Inr s"
  by (induction s) (simp_all add: ascii_def utf8_char_def)

lemma digit_char_code: "d < 10 \<Longrightarrow> (of_char (digit_char d) :: nat) = 48 + d"
  by (simp add: digit_char_def)

lemma decimal_ascii: "\<forall>c \<in> set (decimal n). (of_char c :: nat) < 128"
proof (induction n rule: decimal.induct)
  case (1 n)
  show ?case
  proof (cases "n < 10")
    case True
    then have "decimal n = [digit_char n]" by (subst decimal.simps) simp
    with True show ?thesis by (simp add: digit_char_code)
  next
    case False
    then have eq: "decimal n = decimal (n div 10) @ [digit_char (n mod 10)]"
      by (subst decimal.simps) simp
    have "(of_char (digit_char (n mod 10)) :: nat) < 128"
      by (simp add: digit_char_code)
    with "1.IH" [OF False] show ?thesis unfolding eq by simp
  qed
qed

lemma encodable_iff: "encodable s \<longleftrightarrow> (\<exists>bs. utf8_encode s = Inr bs)"
  by (simp add: encodable_def split: sum.splits)

lemma not_encodable_iff: "\<not> encodable s \<longleftrightarrow> (\<exists>e. utf8_encode s = Inl e)"
  by (simp add: encodable_def split: sum.splits)

lemma token_for_vn_encodable:
  assumes "encodable node_id"
  shows "\<exists>tok. token_for_vn h64 r node_id i = Inr tok"
proof -
  from assms obtain bs where bs: "utf8_encode node_id = Inr bs"
    by (auto simp: encodable_iff)
  have h: "utf8_encode (ascii ''#'') = Inr ''#''"
    by (rule utf8_encode_ascii) simp
  have d: "utf8_encode (ascii (decimal i)) = Inr (decimal i)"
    by (rule utf8_encode_ascii) (rule decimal_ascii)
  show ?thesis
    by (simp add: token_for_vn_def utf8_encode_append bs h d)
qed

lemma token_for_vn_not_encodable:
  assumes "\<not> encodable node_id"
  shows "\<exists>e. token_for_vn h64 r node_id i = Inl e"
proof -
  from assms obtain e where "utf8_encode node_id = Inl e"
    by (auto simp: not_encodable_iff)
  then show ?thesis
    by (simp add: token_for_vn_def utf8_encode_append)
qed

lemma token_for_vn_same:
  "seed r1 = seed r2 \<Longrightarrow> token_for_vn h64 r1 node_id i = token_for_vn h64 r2 node_id i"
  by (simp add: token_for_vn_def split: sum.splits)

section \<open>Binary search on a sorted list\<close>


lemma bisect_left_loop_bounds:
  "sorted a \<Longrightarrow> lo \<le> hi \<Longrightarrow> hi \<le> length a \<Longrightarrow>
   (\<forall>i<lo. a ! i < x) \<Longrightarrow> (\<forall>i. hi \<le> i \<and> i < length a \<longrightarrow> x \<le> a ! i) \<Longrightarrow>
   bisect_left_loop a x lo hi \<le> length a \<and>
   (\<forall>i<bisect_left_loop a x lo hi. a ! i < x) \<and>
   (\<forall>i. bisect_left_loop a x lo hi \<le> i \<and> i < length a \<longrightarrow> x \<le> a ! i)"
proof (induction a x lo hi rule: bisect_left_loop.induct)
  case (1 a x lo hi)
  let ?mid = "(lo + hi) div 2"
  note srt = \<open>sorted a\<close> and hi = \<open>hi \<le> length a\<close>
  note below = \<open>\<forall>i<lo. a ! i < x\<close>
  note above = \<open>\<forall>i. hi \<le> i \<and> i < length a \<longrightarrow> x \<le> a ! i\<close>
  show ?case
  proof (cases "lo < hi")
    case False
    then have "bisect_left_loop a x lo hi = lo"
      by (subst bisect_left_loop.simps) simp
    moreover from False \<open>lo \<le> hi\<close> have "lo = hi" by simp
    ultimately show ?thesis using hi below above by simp
  next
    case True
    then have mid: "lo \<le> ?mid" "?mid < hi" by auto
    show ?thesis
    proof (cases "a ! ?mid < x")
      case less: True
      have below': "\<forall>i<?mid + 1. a ! i < x"
      proof (intro allI impI)
        fix i assume "i < ?mid + 1"
        with srt mid hi have "a ! i \<le> a ! ?mid"
          by (simp add: sorted_nth_mono)
        with less show "a ! i < x" by simp
      qed
      have eq: "bisect_left_loop a x lo hi = bisect_left_loop a x (?mid + 1) hi"
        using True less by (subst bisect_left_loop.simps) simp
      from mid have "?mid + 1 \<le> hi" by simp
      from "1.IH"(1) [OF True less srt this hi below' above] show ?thesis
        unfolding eq .
    next
      case geq: False
      have above': "\<forall>i. ?mid \<le> i \<and> i < length a \<longrightarrow> x \<le> a ! i"
      proof (intro allI impI)
        fix i assume "?mid \<le> i \<and> i < length a"
        with srt have "a ! ?mid \<le> a ! i"
          by (simp add: sorted_nth_mono)
        with geq show "x \<le> a ! i" by simp
      qed
      have eq: "bisect_left_loop a x lo hi = bisect_left_loop a x lo ?mid"
        using True geq by (subst bisect_left_loop.simps) simp
      from mid hi have "?mid \<le> length a" by simp
      from "1.IH"(2) [OF True geq srt mid(1) this below above'] show ?thesis
        unfolding eq .
    qed
  qed
qed

lemma takeWhile_split_index:
  "r \<le> length a \<Longrightarrow> (\<forall>i<r. P (a ! i)) \<Longrightarrow> (\<forall>i. r \<le> i \<and> i < length a \<longrightarrow> \<not> P (a ! i)) \<Longrightarrow>
   takeWhile P a = take r a"
proof -
  assume r: "r \<le> length a" and lo: "\<forall>i<r. P (a ! i)"
    and hi: "\<forall>i. r \<le> i \<and> i < length a \<longrightarrow> \<not> P (a ! i)"
  have a: "a = take r a @ drop r a" by simp
  have all: "\<forall>y \<in> set (take r a). P y"
    using lo r by (auto simp: in_set_conv_nth)
  have "takeWhile P (take r a @ drop r a) = take r a @ takeWhile P (drop r a)"
    by (rule takeWhile_append2) (use all in blast)
  then have "takeWhile P a = take r a @ takeWhile P (drop r a)"
    unfolding append_take_drop_id .
  moreover have "takeWhile P (drop r a) = []"
  proof (cases "drop r a")
    case Nil then show ?thesis by simp
  next
    case (Cons y ys)
    then have "r < length a" by (cases "r < length a") auto
    with Cons have "y = a ! r" by (metis nth_via_drop)
    with hi \<open>r < length a\<close> have "\<not> P y" by simp
    with Cons show ?thesis by simp
  qed
  ultimately show ?thesis by simp
qed


lemma bisect_left_sorted: "sorted a \<Longrightarrow> bisect_left a x = lower_bound a x"
proof -
  assume srt: "sorted a"
  let ?r = "bisect_left_loop a x 0 (length a)"
  have b: "?r \<le> length a \<and> (\<forall>i<?r. a ! i < x) \<and> (\<forall>i. ?r \<le> i \<and> i < length a \<longrightarrow> x \<le> a ! i)"
    by (rule bisect_left_loop_bounds [OF srt]) auto
  then have "takeWhile (\<lambda>t. t < x) a = take ?r a"
    by (intro takeWhile_split_index) (auto simp: not_less)
  with b show ?thesis by (simp add: bisect_left_def lower_bound_def)
qed

lemma list_insert_map: "map f (list_insert i x xs) = list_insert i (f x) (map f xs)"
  by (simp add: list_insert_def take_map drop_map)

lemma list_insert_set: "set (list_insert i x xs) = insert x (set xs)"
proof -
  have "set (take i xs) \<union> set (drop i xs) = set xs"
    by (metis append_take_drop_id set_append)
  then show ?thesis by (auto simp: list_insert_def)
qed

lemma list_insert_length: "length (list_insert i x xs) = Suc (length xs)"
  by (simp add: list_insert_def)

lemma list_insert_filter_length:
  "length (filter P (list_insert i x xs)) = length (filter P xs) + (if P x then 1 else 0)"
proof -
  have "filter P (take i xs) @ filter P (drop i xs) = filter P (take i xs @ drop i xs)"
    by (simp only: filter_append)
  then have "length (filter P (take i xs)) + length (filter P (drop i xs)) = length (filter P xs)"
    by (metis append_take_drop_id length_append)
  then show ?thesis by (simp add: list_insert_def)
qed

lemma sorted_insert_lower_bound:
  "sorted xs \<Longrightarrow> sorted (list_insert (lower_bound xs x) x xs)"
proof -
  assume srt: "sorted xs"
  let ?i = "lower_bound xs x"
  have tk: "take ?i xs = takeWhile (\<lambda>t. t < x) xs"
    unfolding lower_bound_def by (rule takeWhile_eq_take [symmetric])
  have dr: "drop ?i xs = dropWhile (\<lambda>t. t < x) xs"
    unfolding lower_bound_def by (rule dropWhile_eq_drop [symmetric])
  have 1: "\<forall>y \<in> set (take ?i xs). y < x"
    unfolding tk by (auto dest: set_takeWhileD)
  have s2: "sorted (drop ?i xs)"
    unfolding dr using srt by (rule sorted_dropWhile)
  have 2: "\<forall>y \<in> set (drop ?i xs). x \<le> y"
  proof (cases "drop ?i xs")
    case Nil then show ?thesis by simp
  next
    case (Cons z zs)
    then have "\<not> z < x" unfolding dr by (metis hd_dropWhile list.sel(1) list.distinct(1))
    moreover from s2 Cons have "\<forall>y \<in> set zs. z \<le> y" by simp
    ultimately show ?thesis unfolding Cons by auto
  qed
  have s1: "sorted (take ?i xs)"
    unfolding tk using srt by (rule sorted_takeWhile)
  have "sorted (x # drop ?i xs)" using s2 2 by simp
  moreover have "\<forall>a \<in> set (take ?i xs). \<forall>b \<in> set (x # drop ?i xs). a \<le> b"
    using 1 2 by fastforce
  ultimately show ?thesis
    unfolding list_insert_def sorted_append using s1 by blast
qed

section \<open>Lookup on a sorted ring\<close>





section \<open>C1: the primary owner\<close>


lemma demo_ring_inv: "ring_inv demo_ring"
  by (simp add: ring_inv_def demo_ring_def node_A_def node_B_def vn_count_def)


section \<open>Insertion of tokens\<close>

lemma insert_token_frame [simp]:
  "nodes (insert_token t n r) = nodes r"
  "seed (insert_token t n r) = seed r"
  "vn_per_weight (insert_token t n r) = vn_per_weight r"
  by (simp_all add: insert_token_def Let_def)

lemma insert_token_ring:
  "ring (insert_token t n r) = list_insert (bisect_left (sorted_tokens r) t) (t, n) (ring r)"
  by (simp add: insert_token_def Let_def)

lemma insert_token_sorted_tokens:
  "sorted_tokens (insert_token t n r) = list_insert (bisect_left (sorted_tokens r) t) t (sorted_tokens r)"
  by (simp add: insert_token_def Let_def)

lemma insert_token_parallel:
  "sorted_tokens r = map fst (ring r) \<Longrightarrow>
   sorted_tokens (insert_token t n r) = map fst (ring (insert_token t n r))"
  by (simp add: insert_token_ring insert_token_sorted_tokens list_insert_map)

lemma insert_token_sorted:
  "sorted (sorted_tokens r) \<Longrightarrow> sorted (sorted_tokens (insert_token t n r))"
  by (simp add: insert_token_sorted_tokens bisect_left_sorted sorted_insert_lower_bound)

lemma insert_token_set:
  "set (ring (insert_token t n r)) = insert (t, n) (set (ring r))"
  by (simp add: insert_token_ring list_insert_set)

lemma insert_token_count:
  "length (filter (\<lambda>(t, m). Q m) (ring (insert_token t n r))) =
   length (filter (\<lambda>(t, m). Q m) (ring r)) + (if Q n then 1 else 0)"
  by (simp add: insert_token_ring list_insert_filter_length)

lemma add_node_loop_frame [simp]:
  "nodes (snd (add_node_loop h64 node idxs r)) = nodes r"
  "seed (snd (add_node_loop h64 node idxs r)) = seed r"
  "vn_per_weight (snd (add_node_loop h64 node idxs r)) = vn_per_weight r"
  by (induction idxs arbitrary: r) (simp_all split: sum.splits)

lemma add_node_loop_parallel:
  "sorted_tokens r = map fst (ring r) \<Longrightarrow>
   sorted_tokens (snd (add_node_loop h64 node idxs r)) =
   map fst (ring (snd (add_node_loop h64 node idxs r)))"
  by (induction idxs arbitrary: r) (simp_all add: insert_token_parallel split: sum.splits)

lemma add_node_loop_sorted:
  "sorted (sorted_tokens r) \<Longrightarrow> sorted (sorted_tokens (snd (add_node_loop h64 node idxs r)))"
  by (induction idxs arbitrary: r) (simp_all add: insert_token_sorted split: sum.splits)

lemma add_node_loop_nodes_of:
  "snd ` set (ring (snd (add_node_loop h64 node idxs r))) \<subseteq> insert node (snd ` set (ring r))"
proof (induction idxs arbitrary: r)
  case Nil
  show ?case by auto
next
  case (Cons i idxs)
  show ?case
  proof (cases "token_for_vn h64 r (id_node node) i")
    case (Inl e)
    then show ?thesis by auto
  next
    case (Inr tok)
    let ?r1 = "insert_token tok node r"
    have "snd ` set (ring (snd (add_node_loop h64 node idxs ?r1))) \<subseteq>
        insert node (snd ` set (ring ?r1))"
      by (rule Cons.IH)
    also have "\<dots> \<subseteq> insert node (snd ` set (ring r))"
      by (auto simp: insert_token_set)
    finally show ?thesis using Inr by simp
  qed
qed

lemma add_node_loop_keeps:
  "set (ring r) \<subseteq> set (ring (snd (add_node_loop h64 node idxs r)))"
proof (induction idxs arbitrary: r)
  case Nil
  show ?case by simp
next
  case (Cons i idxs)
  show ?case
  proof (cases "token_for_vn h64 r (id_node node) i")
    case (Inl e)
    then show ?thesis by simp
  next
    case (Inr tok)
    let ?r1 = "insert_token tok node r"
    have "set (ring r) \<subseteq> set (ring ?r1)"
      by (auto simp: insert_token_set)
    also have "\<dots> \<subseteq> set (ring (snd (add_node_loop h64 node idxs ?r1)))"
      by (rule Cons.IH)
    finally show ?thesis using Inr by simp
  qed
qed

text \<open>With an id that can be encoded the loop runs to its end.\<close>

lemma add_node_loop_ok:
  "encodable (id_node node) \<Longrightarrow> fst (add_node_loop h64 node idxs r) = None"
proof (induction idxs arbitrary: r)
  case Nil
  show ?case by simp
next
  case (Cons i idxs)
  from token_for_vn_encodable [OF Cons.prems, of h64 r i]
  obtain tok where "token_for_vn h64 r (id_node node) i = Inr tok" ..
  with Cons.IH [OF Cons.prems] show ?case by simp
qed

lemma add_node_loop_count:
  "encodable (id_node node) \<Longrightarrow>
   length (filter (\<lambda>(t, m). Q m) (ring (snd (add_node_loop h64 node idxs r)))) =
   length (filter (\<lambda>(t, m). Q m) (ring r)) + (if Q node then length idxs else 0)"
proof (induction idxs arbitrary: r)
  case Nil
  show ?case by simp
next
  case (Cons i idxs)
  from token_for_vn_encodable [OF Cons.prems, of h64 r i]
  obtain tok where "token_for_vn h64 r (id_node node) i = Inr tok" ..
  with Cons.IH [OF Cons.prems, of "insert_token tok node r"] show ?case
    by (simp add: insert_token_count)
qed

lemma add_node_loop_length:
  "encodable (id_node node) \<Longrightarrow>
   length (ring (snd (add_node_loop h64 node idxs r))) = length (ring r) + length idxs"
proof (induction idxs arbitrary: r)
  case Nil
  show ?case by simp
next
  case (Cons i idxs)
  from token_for_vn_encodable [OF Cons.prems, of h64 r i]
  obtain tok where "token_for_vn h64 r (id_node node) i = Inr tok" ..
  with Cons.IH [OF Cons.prems, of "insert_token tok node r"] show ?case
    by (simp add: insert_token_ring list_insert_length)
qed

lemma add_node_loop_length_tokens:
  "encodable (id_node node) \<Longrightarrow>
   length (sorted_tokens (snd (add_node_loop h64 node idxs r))) =
   length (sorted_tokens r) + length idxs"
proof (induction idxs arbitrary: r)
  case Nil
  show ?case by simp
next
  case (Cons i idxs)
  from token_for_vn_encodable [OF Cons.prems, of h64 r i]
  obtain tok where "token_for_vn h64 r (id_node node) i = Inr tok" ..
  with Cons.IH [OF Cons.prems, of "insert_token tok node r"] show ?case
    by (simp add: insert_token_sorted_tokens list_insert_length)
qed

text \<open>With an id that cannot be encoded the first iteration raises.\<close>

lemma add_node_loop_raises:
  assumes "\<not> encodable (id_node node)"
  shows "\<exists>e. add_node_loop h64 node (i # idxs) r = (Some e, r)"
proof -
  from token_for_vn_not_encodable [OF assms, of h64 r i]
  obtain e where "token_for_vn h64 r (id_node node) i = Inl e" ..
  then show ?thesis by simp
qed

section \<open>The operations preserve the invariants\<close>

lemma in_nodes_list_iff: "node_id \<in> set (nodes_list r) \<longleftrightarrow> map_of (nodes r) node_id \<noteq> None"
  by (simp add: nodes_list_def map_of_eq_None_iff)

lemma update_fresh: "map_of al k = None \<Longrightarrow> AList.update k v al = al @ [(k, v)]"
  by (induction al) (auto split: if_splits)

lemma add_node_duplicate:
  "map_of (nodes r) node_id \<noteq> None \<Longrightarrow>
   add_node h64 node_id w z r =
     (Some (ValueError (ascii ''Node '' @ node_id @ ascii '' already exists'')), r)"
  by (simp add: add_node_def Let_def)

lemma add_node_fresh:
  "map_of (nodes r) node_id = None \<Longrightarrow>
   add_node h64 node_id w z r =
     add_node_loop h64 \<lparr>id_node = node_id, weight = w, zone = z, labels = None\<rparr>
       [0..<nat (vn_per_weight r * max 1 w)]
       (r\<lparr>nodes := nodes r @ [(node_id, \<lparr>id_node = node_id, weight = w, zone = z, labels = None\<rparr>)]\<rparr>)"
  by (simp add: add_node_def Let_def vn_count_def update_fresh)

lemma ring_inv_no_entry:
  assumes "ring_inv r" and "map_of (nodes r) node_id = None"
  shows "filter (\<lambda>(t, m). id_node m = node_id) (ring r) = []"
proof -
  have "\<not> (case e of (t, m) \<Rightarrow> id_node m = node_id)" if "e \<in> set (ring r)" for e
  proof -
    obtain t m where e: "e = (t, m)" by (cases e)
    from assms(1) that e have "map_of (nodes r) (id_node m) = Some m"
      unfolding ring_inv_def by blast
    with assms(2) have "id_node m \<noteq> node_id" by auto
    with e show ?thesis by simp
  qed
  then show ?thesis by (simp add: filter_empty_conv)
qed

lemma add_node_fresh_inv:
  assumes inv: "ring_inv r" and fresh: "map_of (nodes r) node_id = None"
    and enc: "encodable node_id"
  shows "ring_inv (snd (add_node h64 node_id w z r))"
proof -
  let ?node = "\<lparr>id_node = node_id, weight = w, zone = z, labels = None\<rparr>"
  let ?idxs = "[0..<nat (vn_per_weight r * max 1 w)]"
  let ?r1 = "r\<lparr>nodes := nodes r @ [(node_id, ?node)]\<rparr>"
  let ?r' = "snd (add_node_loop h64 ?node ?idxs ?r1)"
  have r': "snd (add_node h64 node_id w z r) = ?r'"
    by (simp add: add_node_fresh [OF fresh])
  from enc have enc': "encodable (id_node ?node)" by simp
  from inv have vn: "1 \<le> vn_per_weight r"
    and par: "sorted_tokens r = map fst (ring r)"
    and srt: "sorted (sorted_tokens r)"
    and dist: "distinct (map fst (nodes r))"
    and cnt: "\<And>k n. (k, n) \<in> set (nodes r) \<Longrightarrow>
        id_node n = k \<and> int (length (filter (\<lambda>(t, m). id_node m = k) (ring r))) =
          vn_per_weight r * max 1 (weight n)"
    and own: "\<And>t m. (t, m) \<in> set (ring r) \<Longrightarrow> map_of (nodes r) (id_node m) = Some m"
    unfolding ring_inv_def by blast+
  from fresh have notin: "node_id \<notin> fst ` set (nodes r)"
    by (simp add: map_of_eq_None_iff)
  have 1: "1 \<le> vn_per_weight ?r'" using vn by simp
  have 2: "sorted_tokens ?r' = map fst (ring ?r')"
    by (rule add_node_loop_parallel) (simp add: par)
  have 3: "sorted (sorted_tokens ?r')"
    by (rule add_node_loop_sorted) (simp add: srt)
  have 4: "distinct (map fst (nodes ?r'))"
    using dist notin by simp
  have pos: "0 \<le> vn_per_weight r * max 1 w"
    using vn by simp
  have 5: "id_node n = k \<and>
      int (length (filter (\<lambda>(t, m). id_node m = k) (ring ?r'))) =
        vn_per_weight ?r' * max 1 (weight n)"
    if "(k, n) \<in> set (nodes ?r')" for k n
  proof (cases "(k, n) \<in> set (nodes r)")
    case True
    with notin have "k \<noteq> node_id" by force
    with cnt [OF True] show ?thesis
      by (simp add: add_node_loop_count [OF enc'])
  next
    case False
    with that have kn: "k = node_id" "n = ?node" by simp_all
    have "length (filter (\<lambda>(t, m). id_node m = node_id) (ring r)) = 0"
      by (simp add: ring_inv_no_entry [OF inv fresh])
    with pos kn show ?thesis
      by (simp add: add_node_loop_count [OF enc'])
  qed
  have 6: "map_of (nodes ?r') (id_node m) = Some m" if "(t, m) \<in> set (ring ?r')" for t m
  proof -
    from that have "m \<in> snd ` set (ring ?r')" by force
    with add_node_loop_nodes_of [of h64 ?node ?idxs ?r1]
    have "m = ?node \<or> m \<in> snd ` set (ring r)" by auto
    then show ?thesis
    proof
      assume "m = ?node"
      with fresh show ?thesis by (simp add: map_add_def)
    next
      assume "m \<in> snd ` set (ring r)"
      then obtain t' where "(t', m) \<in> set (ring r)" by auto
      then have "map_of (nodes r) (id_node m) = Some m" by (rule own)
      then show ?thesis by (simp add: map_add_def)
    qed
  qed
  show ?thesis
    unfolding r' ring_inv_def using 1 2 3 4 5 6 by blast
qed

lemma add_node_inv:
  assumes "ring_inv r" and "encodable node_id \<or> node_id \<in> set (nodes_list r)"
  shows "ring_inv (snd (add_node h64 node_id w z r))"
proof (cases "map_of (nodes r) node_id = None")
  case True
  with assms(2) have "encodable node_id" by (simp add: in_nodes_list_iff)
  with assms(1) True show ?thesis by (rule add_node_fresh_inv)
next
  case False
  with assms(1) show ?thesis by (simp add: add_node_duplicate)
qed

lemma remove_node_unknown: "map_of (nodes r) node_id = None \<Longrightarrow> remove_node node_id r = r"
  by (simp add: remove_node_def)

lemma remove_node_known:
  "map_of (nodes r) node_id = Some n \<Longrightarrow>
   nodes (remove_node node_id r) = AList.delete node_id (nodes r) \<and>
   ring (remove_node node_id r) = sort_key fst (filter (\<lambda>(t, n). id_node n \<noteq> node_id) (ring r)) \<and>
   sorted_tokens (remove_node node_id r) = map fst (ring (remove_node node_id r)) \<and>
   seed (remove_node node_id r) = seed r \<and>
   vn_per_weight (remove_node node_id r) = vn_per_weight r"
  by (simp add: remove_node_def Let_def)

lemma remove_node_ring_sorted:
  assumes "sorted (map fst (ring r))" and "map_of (nodes r) node_id = Some n"
  shows "ring (remove_node node_id r) = filter (\<lambda>(t, n). id_node n \<noteq> node_id) (ring r)"
proof -
  from assms(1) have "sorted (map fst (filter (\<lambda>(t, n). id_node n \<noteq> node_id) (ring r)))"
    by (rule sorted_filter)
  then have "sort_key fst (filter (\<lambda>(t, n). id_node n \<noteq> node_id) (ring r)) =
      filter (\<lambda>(t, n). id_node n \<noteq> node_id) (ring r)"
    by (rule sort_key_id_if_sorted)
  with remove_node_known [OF assms(2)] show ?thesis by simp
qed

lemma remove_node_known_inv:
  assumes inv: "ring_inv r" and known: "map_of (nodes r) node_id = Some n"
  shows "ring_inv (remove_node node_id r)"
proof -
  let ?r' = "remove_node node_id r"
  let ?keep = "\<lambda>(t, n). id_node n \<noteq> node_id"
  from inv have vn: "1 \<le> vn_per_weight r"
    and par: "sorted_tokens r = map fst (ring r)"
    and srt: "sorted (sorted_tokens r)"
    and dist: "distinct (map fst (nodes r))"
    and cnt: "\<And>k n. (k, n) \<in> set (nodes r) \<Longrightarrow>
        id_node n = k \<and> int (length (filter (\<lambda>(t, m). id_node m = k) (ring r))) =
          vn_per_weight r * max 1 (weight n)"
    and own: "\<And>t m. (t, m) \<in> set (ring r) \<Longrightarrow> map_of (nodes r) (id_node m) = Some m"
    unfolding ring_inv_def by blast+
  note k = remove_node_known [OF known]
  from srt par have srt': "sorted (map fst (ring r))" by simp
  have rg: "ring ?r' = filter ?keep (ring r)"
    by (rule remove_node_ring_sorted [OF srt' known])
  have 1: "1 \<le> vn_per_weight ?r'" using vn k by simp
  have 2: "sorted_tokens ?r' = map fst (ring ?r')" using k by simp
  have 3: "sorted (sorted_tokens ?r')"
    unfolding 2 rg using srt' by (rule sorted_filter)
  have 4: "distinct (map fst (nodes ?r'))"
    using k dist by (simp add: distinct_delete)
  have 5: "id_node m = k \<and>
      int (length (filter (\<lambda>(t, m). id_node m = k) (ring ?r'))) =
        vn_per_weight ?r' * max 1 (weight m)"
    if "(k, m) \<in> set (nodes ?r')" for k m
  proof -
    from that k have mem: "(k, m) \<in> set (nodes r)" and ne: "k \<noteq> node_id"
      by (auto simp: AList.delete_eq)
    have "filter (\<lambda>(t, m). id_node m = k) (filter ?keep (ring r)) =
        filter (\<lambda>(t, m). id_node m = k) (ring r)"
      using ne by (auto intro: filter_cong)
    with cnt [OF mem] k show ?thesis
      by (simp add: rg)
  qed
  have 6: "map_of (nodes ?r') (id_node m) = Some m" if "(t, m) \<in> set (ring ?r')" for t m
  proof -
    from that have mem: "(t, m) \<in> set (ring r)" and ne: "id_node m \<noteq> node_id"
      by (auto simp: rg)
    from own [OF mem] ne k show ?thesis
      by (simp add: delete_conv')
  qed
  show ?thesis
    unfolding ring_inv_def using 1 2 3 4 5 6 by blast
qed

lemma remove_node_inv: "ring_inv r \<Longrightarrow> ring_inv (remove_node node_id r)"
  by (cases "map_of (nodes r) node_id") (simp_all add: remove_node_unknown remove_node_known_inv)

lemma init_ring_inv: "ring_inv (init_ring v sd)"
  by (simp add: ring_inv_def init_ring_def)

lemma add_nodes_inv:
  "ring_inv r \<Longrightarrow> \<forall>c \<in> set calls. encodable (fst c) \<Longrightarrow> ring_inv (add_nodes h64 calls r)"
proof (induction calls arbitrary: r)
  case Nil
  then show ?case by (simp add: add_nodes_def)
next
  case (Cons c calls)
  obtain i w z where c: "c = (i, w, z)" by (cases c)
  from Cons.prems c have "ring_inv (snd (add_node h64 i w z r))"
    by (intro add_node_inv) simp_all
  moreover from Cons.prems have "\<forall>c \<in> set calls. encodable (fst c)" by simp
  ultimately have "ring_inv (add_nodes h64 calls (snd (add_node h64 i w z r)))"
    by (rule Cons.IH)
  then show ?case by (simp add: add_nodes_def c)
qed

lemma encodable_ascii: "\<forall>c \<in> set s. (of_char c :: nat) < 128 \<Longrightarrow> encodable (ascii s)"
  by (simp add: encodable_iff utf8_encode_ascii)

lemma lone_surrogate_not_encodable: "\<not> encodable lone_surrogate"
  by (simp add: encodable_def lone_surrogate_def utf8_char_def)

text \<open>
  A fresh id that cannot be encoded: the node is stored, the first token raises, and the
  ring is left with an id-map entry that has no tokens.
\<close>

lemma add_node_not_encodable:
  assumes fresh: "map_of (nodes r) node_id = None" and enc: "\<not> encodable node_id"
    and vn: "1 \<le> vn_per_weight r"
  shows "\<exists>e. add_node h64 node_id w z r =
           (Some e, r\<lparr>nodes := nodes r @
              [(node_id, \<lparr>id_node = node_id, weight = w, zone = z, labels = None\<rparr>)]\<rparr>)"
proof -
  let ?node = "\<lparr>id_node = node_id, weight = w, zone = z, labels = None\<rparr>"
  have "1 * 1 \<le> vn_per_weight r * max 1 w"
    using vn by (intro mult_mono) simp_all
  then have "0 < nat (vn_per_weight r * max 1 w)" by simp
  then have idxs: "[0..<nat (vn_per_weight r * max 1 w)] =
      0 # [Suc 0..<nat (vn_per_weight r * max 1 w)]"
    by (rule upt_conv_Cons)
  from enc have "\<not> encodable (id_node ?node)" by simp
  from add_node_loop_raises [OF this] show ?thesis
    unfolding add_node_fresh [OF fresh] idxs .
qed

section \<open>C7: the operations and the ring invariants\<close>

text \<open>
  C7, as the claim states it, fails: \<open>add_node\<close> of a new id that UTF-8 cannot encode
  stores the node in the id-map and then raises in \<^verbatim>\<open>_token_for_vn\<close>, so the id-map holds
  a node that contributes no token.
\<close>

theorem ring_inv_add_node_counterexample:
  "ring_inv (init_ring 1 0) \<and>
   \<not> ring_inv (snd (add_node demo_hash lone_surrogate 1 None (init_ring 1 0)))"
proof -
  have fresh: "map_of (nodes (init_ring 1 0)) lone_surrogate = None"
    by (simp add: init_ring_def)
  have vn: "1 \<le> vn_per_weight (init_ring 1 0)"
    by (simp add: init_ring_def)
  from add_node_not_encodable [OF fresh lone_surrogate_not_encodable vn, of demo_hash 1 None]
  have "snd (add_node demo_hash lone_surrogate 1 None (init_ring 1 0)) =
      (init_ring 1 0)\<lparr>nodes := nodes (init_ring 1 0) @
        [(lone_surrogate, \<lparr>id_node = lone_surrogate, weight = 1, zone = None, labels = None\<rparr>)]\<rparr>"
    by auto
  then have "\<not> ring_inv (snd (add_node demo_hash lone_surrogate 1 None (init_ring 1 0)))"
    by (simp add: ring_inv_def init_ring_def)
  with init_ring_inv show ?thesis by simp
qed

text \<open>
  C7, amended. The ring invariants \<open>ring_inv\<close> (the token list is the projection of the
  (token, node) list, hence of the same length and in the same order; the token list is
  sorted ascending; every node of the id-map contributes exactly
  \<open>vn_per_weight * max 1 weight\<close> entries; every entry's node is the one the id-map holds
  under its id) hold of a new ring and are preserved by \<open>remove_node\<close> and by every
  \<open>add_node\<close> whose id UTF-8 can encode or is already in the ring, whether the call
  succeeds or rejects a duplicate. The read-only operations return no new state.
\<close>

theorem ring_inv_preserved:
  "ring_inv (init_ring v sd) \<and>
   (ring_inv r \<longrightarrow>
      (encodable node_id \<or> node_id \<in> set (nodes_list r) \<longrightarrow>
         ring_inv (snd (add_node h64 node_id w z r))) \<and>
      ring_inv (remove_node node_id' r))"
  by (simp add: init_ring_inv add_node_inv remove_node_inv)

theorem ring_inv_preserved_witness:
  "ring_inv demo_ring \<and> encodable (ascii ''node-C'') \<and>
   ring_inv (snd (add_node (\<lambda>s sd. 25) (ascii ''node-C'') 3 None demo_ring)) \<and>
   ring_inv (remove_node (ascii ''node-B'') demo_ring)"
proof -
  have enc: "encodable (ascii ''node-C'')"
    by (rule encodable_ascii) simp
  from ring_inv_preserved [of 1 0 demo_ring "ascii ''node-C''" "\<lambda>s sd. 25" 3 None
      "ascii ''node-B''"] demo_ring_inv enc
  show ?thesis by simp
qed

section \<open>C4: when \<open>add_node\<close> raises\<close>

text \<open>
  C4, as the claim states it, fails: a new id that UTF-8 cannot encode is not a duplicate,
  yet \<open>add_node\<close> raises on it, and the ring it leaves is not the ring it was called on.
\<close>

theorem add_node_raises_counterexample:
  "lone_surrogate \<notin> set (nodes_list (init_ring 128 42)) \<and>
   fst (add_node demo_hash lone_surrogate 1 None (init_ring 128 42)) \<noteq> None \<and>
   snd (add_node demo_hash lone_surrogate 1 None (init_ring 128 42)) \<noteq> init_ring 128 42"
proof -
  have fresh: "map_of (nodes (init_ring 128 42)) lone_surrogate = None"
    by (simp add: init_ring_def)
  have vn: "1 \<le> vn_per_weight (init_ring 128 42)"
    by (simp add: init_ring_def)
  from add_node_not_encodable [OF fresh lone_surrogate_not_encodable vn, of demo_hash 1 None]
  obtain e where "add_node demo_hash lone_surrogate 1 None (init_ring 128 42) =
      (Some e, (init_ring 128 42)\<lparr>nodes := nodes (init_ring 128 42) @
        [(lone_surrogate, \<lparr>id_node = lone_surrogate, weight = 1, zone = None, labels = None\<rparr>)]\<rparr>)"
    ..
  then have "fst (add_node demo_hash lone_surrogate 1 None (init_ring 128 42)) \<noteq> None"
    and "snd (add_node demo_hash lone_surrogate 1 None (init_ring 128 42)) \<noteq> init_ring 128 42"
    by (simp_all add: init_ring_def)
  moreover have "lone_surrogate \<notin> set (nodes_list (init_ring 128 42))"
    by (simp add: nodes_list_def init_ring_def)
  ultimately show ?thesis by simp
qed

text \<open>
  C4, amended. An id that is already in the ring is rejected with \<^verbatim>\<open>ValueError\<close> before
  anything is changed: the state \<open>add_node\<close> leaves is the state it was called on. For an id
  that UTF-8 can encode, \<open>add_node\<close> raises if and only if the id is already in the ring,
  and therefore only with the ring unchanged.
\<close>

theorem add_node_raises_iff_duplicate:
  "(node_id \<in> set (nodes_list r) \<longrightarrow>
      add_node h64 node_id w z r =
        (Some (ValueError (ascii ''Node '' @ node_id @ ascii '' already exists'')), r)) \<and>
   (encodable node_id \<longrightarrow>
      (fst (add_node h64 node_id w z r) \<noteq> None \<longleftrightarrow> node_id \<in> set (nodes_list r)) \<and>
      (fst (add_node h64 node_id w z r) \<noteq> None \<longrightarrow> snd (add_node h64 node_id w z r) = r))"
proof (cases "map_of (nodes r) node_id = None")
  case True
  then show ?thesis
    by (simp add: add_node_fresh add_node_loop_ok in_nodes_list_iff)
next
  case False
  then show ?thesis
    by (simp add: add_node_duplicate in_nodes_list_iff)
qed

theorem add_node_raises_iff_duplicate_witness:
  "encodable (ascii ''node-A'') \<and> encodable (ascii ''node-C'') \<and>
   ascii ''node-A'' \<in> set (nodes_list demo_ring) \<and>
   fst (add_node (\<lambda>s sd. 25) (ascii ''node-A'') 3 None demo_ring) \<noteq> None \<and>
   snd (add_node (\<lambda>s sd. 25) (ascii ''node-A'') 3 None demo_ring) = demo_ring \<and>
   fst (add_node (\<lambda>s sd. 25) (ascii ''node-C'') 3 None demo_ring) = None"
proof -
  have ea: "encodable (ascii ''node-A'')" and ec: "encodable (ascii ''node-C'')"
    by (rule encodable_ascii, simp)+
  have a: "ascii ''node-A'' \<in> set (nodes_list demo_ring)"
    by (simp add: nodes_list_def demo_ring_def)
  have c: "ascii ''node-C'' \<notin> set (nodes_list demo_ring)"
    by (simp add: nodes_list_def demo_ring_def)
  note ta = add_node_raises_iff_duplicate [of "ascii ''node-A''" demo_ring "\<lambda>s sd. 25" 3 None]
  note tc = add_node_raises_iff_duplicate [of "ascii ''node-C''" demo_ring "\<lambda>s sd. 25" 3 None]
  from ta a have 1: "fst (add_node (\<lambda>s sd. 25) (ascii ''node-A'') 3 None demo_ring) \<noteq> None"
    and 2: "snd (add_node (\<lambda>s sd. 25) (ascii ''node-A'') 3 None demo_ring) = demo_ring"
    by simp_all
  from tc ec c have 3: "fst (add_node (\<lambda>s sd. 25) (ascii ''node-C'') 3 None demo_ring) = None"
    by simp
  from ea ec a 1 2 3 show ?thesis by (intro conjI)
qed

section \<open>C10: a non-positive weight is stored as given and counted as one\<close>

text \<open>
  C10, as the claim states it, fails: for a new id that UTF-8 cannot encode and the weight
  \<open>0\<close> the call raises, and no token is inserted where \<open>vn_per_weight = 2\<close> were promised.
\<close>

theorem add_node_nonpositive_weight_counterexample:
  "lone_surrogate \<notin> set (nodes_list (init_ring 2 0)) \<and> (0 :: int) \<le> 0 \<and>
   vn_per_weight (init_ring 2 0) = 2 \<and>
   fst (add_node demo_hash lone_surrogate 0 None (init_ring 2 0)) \<noteq> None \<and>
   ring (snd (add_node demo_hash lone_surrogate 0 None (init_ring 2 0))) = ring (init_ring 2 0)"
proof -
  have fresh: "map_of (nodes (init_ring 2 0)) lone_surrogate = None"
    by (simp add: init_ring_def)
  have vn: "1 \<le> vn_per_weight (init_ring 2 0)"
    by (simp add: init_ring_def)
  from add_node_not_encodable [OF fresh lone_surrogate_not_encodable vn, of demo_hash 0 None]
  obtain e where "add_node demo_hash lone_surrogate 0 None (init_ring 2 0) =
      (Some e, (init_ring 2 0)\<lparr>nodes := nodes (init_ring 2 0) @
        [(lone_surrogate, \<lparr>id_node = lone_surrogate, weight = 0, zone = None, labels = None\<rparr>)]\<rparr>)"
    ..
  then have "fst (add_node demo_hash lone_surrogate 0 None (init_ring 2 0)) \<noteq> None"
    and "ring (snd (add_node demo_hash lone_surrogate 0 None (init_ring 2 0))) = ring (init_ring 2 0)"
    by simp_all
  moreover have "lone_surrogate \<notin> set (nodes_list (init_ring 2 0))"
    and "vn_per_weight (init_ring 2 0) = 2"
    by (simp_all add: nodes_list_def init_ring_def)
  ultimately show ?thesis by simp
qed

text \<open>
  C10, amended. \<open>add_node\<close> does not validate the weight. For an id that is not in the
  ring and that UTF-8 can encode, and a weight \<open>w \<le> 0\<close>, the call succeeds, the id-map
  holds the node with the weight \<open>w\<close> as given, and exactly \<open>vn_per_weight\<close> tokens are
  inserted, all of them owned by the new node: the clamp to 1 applies to the token count
  only.
\<close>

theorem add_node_nonpositive_weight:
  assumes "node_id \<notin> set (nodes_list r)" and "encodable node_id"
    and "w \<le> 0" and "1 \<le> vn_per_weight r"
  shows "fst (add_node h64 node_id w z r) = None \<and>
         map_of (nodes (snd (add_node h64 node_id w z r))) node_id =
           Some \<lparr>id_node = node_id, weight = w, zone = z, labels = None\<rparr> \<and>
         int (length (ring (snd (add_node h64 node_id w z r)))) =
           int (length (ring r)) + vn_per_weight r \<and>
         int (length (sorted_tokens (snd (add_node h64 node_id w z r)))) =
           int (length (sorted_tokens r)) + vn_per_weight r \<and>
         int (length (filter (\<lambda>(t, m). id_node m = node_id) (ring (snd (add_node h64 node_id w z r))))) =
           int (length (filter (\<lambda>(t, m). id_node m = node_id) (ring r))) + vn_per_weight r"
proof -
  from assms(1) have fresh: "map_of (nodes r) node_id = None"
    by (simp add: in_nodes_list_iff)
  from assms(3) have "max 1 w = 1" by simp
  with assms(2,4) fresh show ?thesis
    by (simp add: add_node_fresh [OF fresh] add_node_loop_ok add_node_loop_length
        add_node_loop_length_tokens add_node_loop_count map_add_def)
qed

theorem add_node_nonpositive_weight_witness:
  "ascii ''node-C'' \<notin> set (nodes_list demo_ring) \<and> encodable (ascii ''node-C'') \<and>
   fst (add_node (\<lambda>s sd. 25) (ascii ''node-C'') (- 5) None demo_ring) = None \<and>
   map_of (nodes (snd (add_node (\<lambda>s sd. 25) (ascii ''node-C'') (- 5) None demo_ring)))
       (ascii ''node-C'') =
     Some \<lparr>id_node = ascii ''node-C'', weight = - 5, zone = None, labels = None\<rparr> \<and>
   length (ring (snd (add_node (\<lambda>s sd. 25) (ascii ''node-C'') (- 5) None demo_ring))) = 6"
proof -
  have c: "ascii ''node-C'' \<notin> set (nodes_list demo_ring)"
    by (simp add: nodes_list_def demo_ring_def)
  have enc: "encodable (ascii ''node-C'')"
    by (rule encodable_ascii) simp
  have v: "1 \<le> vn_per_weight demo_ring" "vn_per_weight demo_ring = 2" "length (ring demo_ring) = 4"
    by (simp_all add: demo_ring_def)
  have w: "(- 5 :: int) \<le> 0" by simp
  from add_node_nonpositive_weight [OF c enc w v(1), of "\<lambda>s sd. 25" None] v(2,3) c enc
  show ?thesis by simp
qed

section \<open>C3: the plan holds exactly the keys whose primary owner differs\<close>







section \<open>What a returning replica walk returns\<close>

lemma walk_post_stop:
  "\<not> (int (length out) < replicas \<and> 0 < n) \<Longrightarrow> walk_post rg n replicas out seen out seen"
  by (auto simp: walk_post_def)

lemma walk_post_new:
  assumes "walk_post rg n replicas (out @ [nid]) (insert nid seen) out' seen'"
    and "nid \<in> (\<lambda>e. id_node (snd e)) ` set rg" and "nid \<notin> seen"
    and "int (length out) < replicas"
  shows "walk_post rg n replicas out seen out' seen'"
proof -
  from assms(1) have sub: "set out' \<subseteq> set (out @ [nid]) \<union> (\<lambda>e. id_node (snd e)) ` set rg"
    and ext: "\<exists>ys. out' = (out @ [nid]) @ ys"
    and sn: "insert nid seen = set (out @ [nid]) \<longrightarrow> seen' = set out'"
    and ds: "insert nid seen = set (out @ [nid]) \<and> distinct (out @ [nid]) \<longrightarrow> distinct out'"
    and ln: "0 < n \<longrightarrow> replicas \<le> int (length out')"
    and ub: "int (length (out @ [nid])) \<le> replicas \<longrightarrow> int (length out') \<le> replicas"
    unfolding walk_post_def by blast+
  from sub assms(2) have 1: "set out' \<subseteq> set out \<union> (\<lambda>e. id_node (snd e)) ` set rg"
    by auto
  from ext have 2: "\<exists>ys. out' = out @ ys" by auto
  from sn have 3: "seen = set out \<longrightarrow> seen' = set out'" by simp
  from ds assms(3) have 4: "seen = set out \<and> distinct out \<longrightarrow> distinct out'" by auto
  from ub assms(4) have 5: "int (length out) \<le> replicas \<longrightarrow> int (length out') \<le> replicas"
    by simp
  from 1 2 3 4 ln 5 show ?thesis unfolding walk_post_def by blast
qed

lemma walk_returns:
  assumes "walk rg n replicas i out seen = Some y"
  shows "y = Inl IndexError \<or>
         (\<exists>out' seen'. y = Inr (out', seen') \<and> walk_post rg n replicas out seen out' seen')"
proof -
  let ?P = "\<lambda>rg n replicas (i::nat) out seen y. y = Inl IndexError \<or>
         (\<exists>out' seen'. y = Inr (out', seen') \<and> walk_post rg n replicas out seen out' seen')"
  have "?P rg n replicas i out seen y"
  proof (rule walk.raw_induct [where P = ?P, OF _ assms], goal_cases)
    case (1 walk rg n replicas i out seen y)
    note IH = 1(1) and eq = 1(2)
    show ?case
    proof (cases "int (length out) < replicas \<and> 0 < n")
      case False
      with eq have "y = Inr (out, seen)" by simp
      with walk_post_stop [OF False] show ?thesis by blast
    next
      case go: True
      show ?thesis
      proof (cases "i mod n < length rg")
        case False
        with go eq show ?thesis by simp
      next
        case inr: True
        let ?nid = "id_node (snd (rg ! (i mod n)))"
        from inr have mem: "?nid \<in> (\<lambda>e. id_node (snd e)) ` set rg"
          by (metis imageI nth_mem)
        show ?thesis
        proof (cases "?nid \<in> seen")
          case True
          with go inr eq have "walk rg n replicas (i + 1) out seen = Some y" by simp
          from IH [OF this] show ?thesis .
        next
          case False
          with go inr eq
          have "walk rg n replicas (i + 1) (out @ [?nid]) (insert ?nid seen) = Some y" by simp
          from IH [OF this] show ?thesis
          proof
            assume "y = Inl IndexError"
            then show ?thesis ..
          next
            assume "\<exists>out' seen'. y = Inr (out', seen') \<and>
              walk_post rg n replicas (out @ [?nid]) (insert ?nid seen) out' seen'"
            then obtain out' seen' where y: "y = Inr (out', seen')"
              and wp: "walk_post rg n replicas (out @ [?nid]) (insert ?nid seen) out' seen'"
              by blast
            from go have lt: "int (length out) < replicas" by simp
            from walk_post_new [OF wp mem False lt] y show ?thesis by blast
          qed
        qed
      qed
    qed
  qed
  then show ?thesis .
qed



section \<open>C8: removing a node\<close>





section \<open>C2: the replica walk when the ring has too few nodes\<close>

lemma walk_never_returns:
  assumes w: "walk rg n replicas i out seen = Some y"
    and n: "0 < n" "n \<le> length rg"
    and few: "int (card ((\<lambda>e. id_node (snd e)) ` set rg)) < replicas"
    and inv: "seen = set out" "distinct out" "set out \<subseteq> (\<lambda>e. id_node (snd e)) ` set rg"
  shows False
proof -
  let ?ids = "\<lambda>rg. (\<lambda>e. id_node (snd e)) ` set rg"
  let ?P = "\<lambda>rg n replicas (i::nat) out seen (y :: error + pystr list \<times> pystr set).
     0 < n \<longrightarrow> n \<le> length rg \<longrightarrow> int (card (?ids rg)) < replicas \<longrightarrow>
     seen = set out \<longrightarrow> distinct out \<longrightarrow> set out \<subseteq> ?ids rg \<longrightarrow> False"
  have "?P rg n replicas i out seen y"
  proof (rule walk.raw_induct [where P = ?P, OF _ w], goal_cases)
    case (1 walk rg n replicas i out seen y)
    note IH = 1(1) and eq = 1(2)
    show ?case
    proof (intro impI)
      assume n: "0 < n" "n \<le> length rg"
        and few: "int (card (?ids rg)) < replicas"
        and inv: "seen = set out" "distinct out" "set out \<subseteq> ?ids rg"
      from inv(2) have "length out = card (set out)"
        by (simp add: distinct_card)
      also from inv(3) have "\<dots> \<le> card (?ids rg)"
        by (intro card_mono) auto
      finally have lt: "int (length out) < replicas" using few by simp
      from n have inr: "i mod n < length rg"
        by (meson less_le_trans mod_less_divisor)
      let ?nid = "id_node (snd (rg ! (i mod n)))"
      from inr have mem: "?nid \<in> ?ids rg"
        by (metis imageI nth_mem)
      show False
      proof (cases "?nid \<in> seen")
        case True
        with lt n inr eq have "walk rg n replicas (i + 1) out seen = Some y" by simp
        from IH [OF this] n few inv show False by blast
      next
        case False
        with lt n inr eq
        have "walk rg n replicas (i + 1) (out @ [?nid]) (insert ?nid seen) = Some y" by simp
        moreover from inv False have "insert ?nid seen = set (out @ [?nid])"
          "distinct (out @ [?nid])" by auto
        moreover from inv mem have "set (out @ [?nid]) \<subseteq> ?ids rg" by auto
        ultimately show False using IH n few by blast
      qed
    qed
  qed
  with n few inv show False by blast
qed

lemma walk_diverges:
  assumes "0 < n" "n \<le> length rg"
    and "int (card ((\<lambda>e. id_node (snd e)) ` set rg)) < replicas"
    and "seen = set out" "distinct out" "set out \<subseteq> (\<lambda>e. id_node (snd e)) ` set rg"
  shows "walk rg n replicas i out seen = None"
proof (cases "walk rg n replicas i out seen")
  case None
  then show ?thesis .
next
  case (Some y)
  from walk_never_returns [OF Some assms] show ?thesis ..
qed

lemma ring_inv_ids:
  assumes "ring_inv r"
  shows "(\<lambda>e. id_node (snd e)) ` set (ring r) = set (nodes_list r)"
proof (intro equalityI subsetI)
  fix k assume "k \<in> (\<lambda>e. id_node (snd e)) ` set (ring r)"
  then obtain t m where e: "(t, m) \<in> set (ring r)" and k: "k = id_node m" by auto
  from assms e have "map_of (nodes r) (id_node m) = Some m"
    unfolding ring_inv_def by blast
  with k show "k \<in> set (nodes_list r)"
    by (simp add: in_nodes_list_iff)
next
  fix k assume "k \<in> set (nodes_list r)"
  then obtain n where kn: "(k, n) \<in> set (nodes r)"
    by (auto simp: nodes_list_def)
  from assms kn have cnt: "int (length (filter (\<lambda>(t, m). id_node m = k) (ring r))) =
      vn_per_weight r * max 1 (weight n)"
    and vn: "1 \<le> vn_per_weight r"
    unfolding ring_inv_def by blast+
  have "1 * 1 \<le> vn_per_weight r * max 1 (weight n)"
    using vn by (intro mult_mono) simp_all
  then have "1 \<le> vn_per_weight r * max 1 (weight n)"
    by simp
  with cnt have "filter (\<lambda>(t, m). id_node m = k) (ring r) \<noteq> []" by auto
  then obtain e where "e \<in> set (ring r)" "case e of (t, m) \<Rightarrow> id_node m = k"
    by (auto simp: filter_empty_conv)
  then show "k \<in> (\<lambda>e. id_node (snd e)) ` set (ring r)"
    by (auto simp: case_prod_beta)
qed

lemma ring_inv_card_ids:
  assumes "ring_inv r"
  shows "card ((\<lambda>e. id_node (snd e)) ` set (ring r)) = size_ring r"
proof -
  from assms have "distinct (map fst (nodes r))" unfolding ring_inv_def by blast
  then have "card (set (map fst (nodes r))) = length (map fst (nodes r))"
    by (rule distinct_card)
  then have "card (set (nodes_list r)) = length (nodes r)"
    by (simp add: nodes_list_def)
  then show ?thesis
    by (simp add: ring_inv_ids [OF assms] size_ring_def)
qed

lemma get_nodes_for_key_diverges:
  assumes inv: "ring_inv r" and ne: "ring r \<noteq> []" and mp: "1 \<le> multiprobe"
    and few: "int (size_ring r) < replicas"
  shows "get_nodes_for_key h64 key replicas multiprobe r = None"
proof -
  from inv have len: "length (sorted_tokens r) = length (ring r)"
    unfolding ring_inv_def by simp
  with ne have n: "0 < length (sorted_tokens r)" "length (sorted_tokens r) \<le> length (ring r)"
    by simp_all
  from mp have "length (sort (probe_starts h64 key multiprobe r)) \<noteq> 0"
    by (simp add: probe_starts_def)
  then obtain s starts where st: "sort (probe_starts h64 key multiprobe r) = s # starts"
    by (cases "sort (probe_starts h64 key multiprobe r)") simp_all
  from few have few': "int (card ((\<lambda>e. id_node (snd e)) ` set (ring r))) < replicas"
    by (simp add: ring_inv_card_ids [OF inv])
  have "walk (ring r) (length (sorted_tokens r)) replicas s [] {} = None"
    by (rule walk_diverges [OF n few']) simp_all
  with ne n st show ?thesis
    by (simp add: get_nodes_for_key_def Let_def)
qed

text \<open>
  C2. The claim says that \<open>get_nodes_for_key\<close> terminates on every non-empty ring and
  returns the distinct nodes it found when the ring has fewer than \<open>replicas\<close> nodes. The
  inner \<^verbatim>\<open>while len(out) < replicas and n > 0\<close> loop has no other exit, so on such a ring the
  call never returns. Here the ring of the repository's test, with the single node
  \<^verbatim>\<open>node-A\<close>, is asked for two replicas: the call diverges, whatever the digest function.
\<close>

theorem get_nodes_for_key_single_node_diverges:
  "get_nodes_for_key h64 ''embedding-999'' 2 2
     (snd (add_node h64 (ascii ''node-A'') 1 None (init_ring 128 42))) = None"
proof -
  let ?r = "snd (add_node h64 (ascii ''node-A'') 1 None (init_ring 128 42))"
  have fresh: "map_of (nodes (init_ring 128 42)) (ascii ''node-A'') = None"
    by (simp add: init_ring_def)
  have enc: "encodable (ascii ''node-A'')"
    by (rule encodable_ascii) simp
  then have inv: "ring_inv ?r"
    by (intro add_node_inv init_ring_inv disjI1)
  have "length (ring ?r) = 128"
    using enc by (simp add: add_node_fresh [OF fresh] add_node_loop_length) (simp add: init_ring_def)
  then have ne: "ring ?r \<noteq> []" by auto
  have "size_ring ?r = 1"
    by (simp add: add_node_fresh [OF fresh] size_ring_def) (simp add: init_ring_def)
  then have few: "int (size_ring ?r) < 2" by simp
  show ?thesis
    by (rule get_nodes_for_key_diverges [OF inv ne _ few]) simp
qed

section \<open>The replica walk when the ring has enough nodes\<close>

lemma walk_no_error:
  assumes w: "walk rg n replicas i out seen = Some y" and n: "n \<le> length rg"
  shows "\<exists>out' seen'. y = Inr (out', seen')"
proof -
  let ?P = "\<lambda>rg n (replicas::int) (i::nat) (out::pystr list) (seen::pystr set)
      (y :: error + pystr list \<times> pystr set).
      n \<le> length rg \<longrightarrow> (\<exists>out' seen'. y = Inr (out', seen'))"
  have "?P rg n replicas i out seen y"
  proof (rule walk.raw_induct [where P = ?P, OF _ w], goal_cases)
    case (1 walk rg n replicas i out seen y)
    note IH = 1(1) and eq = 1(2)
    show ?case
    proof
      assume n: "n \<le> length rg"
      show "\<exists>out' seen'. y = Inr (out', seen')"
      proof (cases "int (length out) < replicas \<and> 0 < n")
        case False
        with eq show ?thesis by auto
      next
        case True
        with n have inr: "i mod n < length rg"
          by (meson less_le_trans mod_less_divisor)
        show ?thesis
        proof (cases "id_node (snd (rg ! (i mod n))) \<in> seen")
          case seen: True
          with True inr eq have "walk rg n replicas (i + 1) out seen = Some y" by simp
          from IH [OF this] n show ?thesis by blast
        next
          case False
          with True inr eq
          have "walk rg n replicas (i + 1) (out @ [id_node (snd (rg ! (i mod n)))])
              (insert (id_node (snd (rg ! (i mod n)))) seen) = Some y" by simp
          from IH [OF this] n show ?thesis by blast
        qed
      qed
    qed
  qed
  with n show ?thesis by blast
qed

lemma walk_find_next:
  assumes "0 < n" "n \<le> length rg" "int (length out) < replicas"
    and "id_node (snd (rg ! ((i + k) mod n))) \<notin> seen"
  shows "\<exists>j. id_node (snd (rg ! (j mod n))) \<notin> seen \<and>
           walk rg n replicas i out seen =
           walk rg n replicas (j + 1) (out @ [id_node (snd (rg ! (j mod n)))])
             (insert (id_node (snd (rg ! (j mod n)))) seen)"
  using assms(4)
proof (induction k arbitrary: i)
  case 0
  from assms(1,2) have inr: "i mod n < length rg"
    by (meson less_le_trans mod_less_divisor)
  from 0 have un: "id_node (snd (rg ! (i mod n))) \<notin> seen" by simp
  have "walk rg n replicas i out seen =
      walk rg n replicas (i + 1) (out @ [id_node (snd (rg ! (i mod n)))])
        (insert (id_node (snd (rg ! (i mod n)))) seen)"
    using assms(1,3) inr un by (subst walk.simps) simp
  with un show ?case by blast
next
  case (Suc k)
  from assms(1,2) have inr: "i mod n < length rg"
    by (meson less_le_trans mod_less_divisor)
  show ?case
  proof (cases "id_node (snd (rg ! (i mod n))) \<in> seen")
    case False
    have "walk rg n replicas i out seen =
        walk rg n replicas (i + 1) (out @ [id_node (snd (rg ! (i mod n)))])
          (insert (id_node (snd (rg ! (i mod n)))) seen)"
      using assms(1,3) inr False by (subst walk.simps) simp
    with False show ?thesis by blast
  next
    case True
    have step: "walk rg n replicas i out seen = walk rg n replicas (i + 1) out seen"
      using assms(1,3) inr True by (subst walk.simps) simp
    from Suc.prems have "id_node (snd (rg ! ((i + 1 + k) mod n))) \<notin> seen"
      by (simp add: add.commute add.left_commute)
    from Suc.IH [OF this] show ?thesis unfolding step .
  qed
qed

lemma reach_index:
  assumes "0 < n" "j < n"
  shows "\<exists>k. (i + k) mod n = (j::nat)"
proof -
  have "i \<le> j + n * (i + 1)"
    using assms(1) by (simp add: trans_le_add2)
  then have "i + (j + n * (i + 1) - i) = j + n * (i + 1)" by simp
  moreover have "(j + n * (i + 1)) mod n = j"
    using assms(2) by (simp only: mod_mult_self2 mod_less)
  ultimately have "(i + (j + n * (i + 1) - i)) mod n = j"
    by (simp only:)
  then show ?thesis ..
qed

lemma walk_terminates:
  assumes n: "0 < n" "n = length rg"
    and enough: "replicas \<le> int (card ((\<lambda>e. id_node (snd e)) ` set rg))"
    and inv: "seen = set out" "distinct out" "set out \<subseteq> (\<lambda>e. id_node (snd e)) ` set rg"
  shows "\<exists>y. walk rg n replicas i out seen = Some y"
  using inv
proof (induction "nat (replicas - int (length out))" arbitrary: i out seen)
  case 0
  then have "\<not> int (length out) < replicas" by simp
  then have "walk rg n replicas i out seen = Some (Inr (out, seen))"
    by (subst walk.simps) simp
  then show ?case ..
next
  case (Suc d)
  let ?ids = "(\<lambda>e. id_node (snd e)) ` set rg"
  from Suc.hyps(2) have lt: "int (length out) < replicas" by simp
  from Suc.prems(2) have "card (set out) = length out" by (rule distinct_card)
  with lt enough have "card (set out) < card ?ids" by simp
  with Suc.prems(3) have "set out \<noteq> ?ids" by auto
  with Suc.prems(3) obtain x where x: "x \<in> ?ids" "x \<notin> set out" by auto
  then obtain e where "e \<in> set rg" "x = id_node (snd e)" by auto
  then obtain j where j: "j < length rg" "x = id_node (snd (rg ! j))"
    by (auto simp: in_set_conv_nth)
  from reach_index [of n j i] n j(1) obtain k where k: "(i + k) mod n = j" by auto
  from x(2) j(2) k Suc.prems(1) have "id_node (snd (rg ! ((i + k) mod n))) \<notin> seen" by simp
  from walk_find_next [OF n(1) _ lt this] n(2)
  obtain j' where un: "id_node (snd (rg ! (j' mod n))) \<notin> seen"
    and eq: "walk rg n replicas i out seen =
           walk rg n replicas (j' + 1) (out @ [id_node (snd (rg ! (j' mod n)))])
             (insert (id_node (snd (rg ! (j' mod n)))) seen)"
    by auto
  let ?nid = "id_node (snd (rg ! (j' mod n)))"
  from n have "j' mod n < length rg" by simp
  then have mem: "?nid \<in> ?ids" by (metis imageI nth_mem)
  have d: "d = nat (replicas - int (length (out @ [?nid])))"
    using Suc.hyps(2) by simp
  have 1: "insert ?nid seen = set (out @ [?nid])" using Suc.prems(1) by simp
  have 2: "distinct (out @ [?nid])" using Suc.prems(1,2) un by simp
  have 3: "set (out @ [?nid]) \<subseteq> ?ids" using Suc.prems(3) mem by simp
  from Suc.hyps(1) [OF d 1 2 3] show ?case unfolding eq .
qed

lemma get_nodes_for_key_enough:
  assumes inv: "ring_inv r" and ne: "ring r \<noteq> []" and mp: "1 \<le> multiprobe"
    and rep: "1 \<le> replicas" "replicas \<le> int (size_ring r)"
  shows "\<exists>res. get_nodes_for_key h64 key replicas multiprobe r = Some (Inr res) \<and>
           int (length res) = replicas \<and> distinct res \<and> set res \<subseteq> set (nodes_list r)"
proof -
  let ?n = "length (sorted_tokens r)"
  from inv have len: "?n = length (ring r)"
    unfolding ring_inv_def by simp
  with ne have n: "0 < ?n" by simp
  from mp have "length (sort (probe_starts h64 key multiprobe r)) \<noteq> 0"
    by (simp add: probe_starts_def)
  then obtain s starts where st: "sort (probe_starts h64 key multiprobe r) = s # starts"
    by (cases "sort (probe_starts h64 key multiprobe r)") simp_all
  from rep(2) have enough: "replicas \<le> int (card ((\<lambda>e. id_node (snd e)) ` set (ring r)))"
    by (simp add: ring_inv_card_ids [OF inv])
  from walk_terminates [OF n len enough, of "{}" "[]" s]
  obtain y where w: "walk (ring r) ?n replicas s [] {} = Some y" by auto
  from walk_no_error [OF w] len obtain out' seen' where y: "y = Inr (out', seen')" by auto
  from walk_returns [OF w] y have "walk_post (ring r) ?n replicas [] {} out' seen'" by simp
  then have sub: "set out' \<subseteq> (\<lambda>e. id_node (snd e)) ` set (ring r)"
    and ds: "distinct out'"
    and lo: "replicas \<le> int (length out')"
    and hi: "int (length out') \<le> replicas"
    unfolding walk_post_def using n rep(1) by auto
  have "get_nodes_for_key h64 key replicas multiprobe r = Some (Inr out')"
    using ne n st w y lo by (simp add: get_nodes_for_key_def Let_def)
  moreover from sub have "set out' \<subseteq> set (nodes_list r)"
    by (simp add: ring_inv_ids [OF inv])
  ultimately show ?thesis using ds lo hi by auto
qed

section \<open>C6: the layout is a function of the seed, the configuration and the calls\<close>

lemma dump_tokens_insert_token:
  "dump_tokens (insert_token t n r) =
   list_insert (bisect_left (sorted_tokens r) t) (t, id_node n) (dump_tokens r)"
  by (simp add: dump_tokens_def insert_token_ring list_insert_map)

lemma same_layout_insert_token:
  assumes "same_layout r1 r2" and "id_node n1 = id_node n2"
  shows "same_layout (insert_token t n1 r1) (insert_token t n2 r2)"
  using assms
  by (simp add: same_layout_def dump_tokens_insert_token insert_token_sorted_tokens nodes_list_def)

lemma same_layout_add_node_loop:
  assumes "same_layout r1 r2" and "id_node n1 = id_node n2"
  shows "fst (add_node_loop h64 n1 idxs r1) = fst (add_node_loop h64 n2 idxs r2) \<and>
         same_layout (snd (add_node_loop h64 n1 idxs r1)) (snd (add_node_loop h64 n2 idxs r2))"
  using assms(1)
proof (induction idxs arbitrary: r1 r2)
  case Nil
  then show ?case by simp
next
  case (Cons i idxs)
  from Cons.prems have "seed r1 = seed r2" by (simp add: same_layout_def)
  then have tok: "token_for_vn h64 r1 (id_node n1) i = token_for_vn h64 r2 (id_node n2) i"
    using assms(2) token_for_vn_same [of r1 r2 h64 "id_node n2" i] by simp
  show ?case
  proof (cases "token_for_vn h64 r2 (id_node n2) i")
    case (Inl e)
    with tok Cons.prems show ?thesis by simp
  next
    case (Inr t)
    from same_layout_insert_token [OF Cons.prems assms(2)]
    have "same_layout (insert_token t n1 r1) (insert_token t n2 r2)" .
    from Cons.IH [OF this] tok Inr show ?thesis by simp
  qed
qed

lemma same_layout_add_node:
  assumes "same_layout r1 r2"
  shows "same_layout (snd (add_node h64 node_id w z1 r1)) (snd (add_node h64 node_id w z2 r2))"
proof (cases "map_of (nodes r1) node_id = None")
  case False
  moreover from False assms have "map_of (nodes r2) node_id \<noteq> None"
    using in_nodes_list_iff [of node_id r1] in_nodes_list_iff [of node_id r2]
    by (simp add: same_layout_def)
  ultimately show ?thesis using assms by (simp add: add_node_duplicate)
next
  case True
  with assms have True2: "map_of (nodes r2) node_id = None"
    using in_nodes_list_iff [of node_id r1] in_nodes_list_iff [of node_id r2]
    by (simp add: same_layout_def)
  let ?n1 = "\<lparr>id_node = node_id, weight = w, zone = z1, labels = None\<rparr>"
  let ?n2 = "\<lparr>id_node = node_id, weight = w, zone = z2, labels = None\<rparr>"
  from assms have vn: "vn_per_weight r1 = vn_per_weight r2"
    by (simp add: same_layout_def)
  from assms have "same_layout (r1\<lparr>nodes := nodes r1 @ [(node_id, ?n1)]\<rparr>)
                               (r2\<lparr>nodes := nodes r2 @ [(node_id, ?n2)]\<rparr>)"
    by (simp add: same_layout_def dump_tokens_def nodes_list_def)
  from same_layout_add_node_loop [OF this, of ?n1 ?n2 h64 "[0..<nat (vn_per_weight r1 * max 1 w)]"]
  show ?thesis
    by (simp add: add_node_fresh [OF True] add_node_fresh [OF True2] vn)
qed

lemma same_layout_add_nodes:
  assumes "map (\<lambda>(node_id, w, z). (node_id, w)) calls1 = map (\<lambda>(node_id, w, z). (node_id, w)) calls2"
    and "same_layout r1 r2"
  shows "same_layout (add_nodes h64 calls1 r1) (add_nodes h64 calls2 r2)"
  using assms
proof (induction calls1 arbitrary: calls2 r1 r2)
  case Nil
  then show ?case by (simp add: add_nodes_def)
next
  case (Cons c calls1)
  from Cons.prems(1) obtain c' calls2' where c2: "calls2 = c' # calls2'"
    by (cases calls2) simp_all
  obtain i w z where c: "c = (i, w, z)" by (cases c)
  obtain i' w' z' where c': "c' = (i', w', z')" by (cases c')
  from Cons.prems(1) c2 c c' have eq: "i' = i" "w' = w"
    and rest: "map (\<lambda>(node_id, w, z). (node_id, w)) calls1 =
               map (\<lambda>(node_id, w, z). (node_id, w)) calls2'"
    by simp_all
  from same_layout_add_node [OF Cons.prems(2)]
  have "same_layout (snd (add_node h64 i w z r1)) (snd (add_node h64 i w z' r2))" .
  from Cons.IH [OF rest this] show ?case
    by (simp add: add_nodes_def c2 c c' eq)
qed

lemma same_layout_get_node:
  assumes "same_layout r1 r2"
  shows "get_node h64 key r1 = get_node h64 key r2"
proof -
  from assms have sd: "seed r1 = seed r2" and st: "sorted_tokens r1 = sorted_tokens r2"
    and dt: "dump_tokens r1 = dump_tokens r2"
    by (simp_all add: same_layout_def)
  from dt have "length (dump_tokens r1) = length (dump_tokens r2)" by simp
  then have len: "length (ring r1) = length (ring r2)" by (simp add: dump_tokens_def)
  then have emp: "ring r1 = [] \<longleftrightarrow> ring r2 = []" by auto
  have idx: "id_node (snd (ring r1 ! i)) = id_node (snd (ring r2 ! i))" if "i < length (ring r1)" for i
  proof -
    from that have "snd (dump_tokens r1 ! i) = id_node (snd (ring r1 ! i))"
      by (simp add: dump_tokens_def case_prod_beta)
    moreover from that len have "snd (dump_tokens r2 ! i) = id_node (snd (ring r2 ! i))"
      by (simp add: dump_tokens_def case_prod_beta)
    ultimately show ?thesis using dt by simp
  qed
  show ?thesis
    using emp len idx by (simp add: get_node_def Let_def sd st)
qed

text \<open>
  C6. Two rings created with the same seed and the same \<open>virtual_nodes_per_weight\<close> and
  built by call sequences that agree on the ids and the weights, in order (whatever the
  zones), have the same \<open>(token, node id)\<close> layout, and \<open>get_node\<close> agrees on them for
  every key.
\<close>

theorem layout_deterministic:
  assumes "map (\<lambda>(node_id, w, z). (node_id, w)) calls1 = map (\<lambda>(node_id, w, z). (node_id, w)) calls2"
  shows "dump_tokens (add_nodes h64 calls1 (init_ring v sd)) =
           dump_tokens (add_nodes h64 calls2 (init_ring v sd)) \<and>
         get_node h64 key (add_nodes h64 calls1 (init_ring v sd)) =
           get_node h64 key (add_nodes h64 calls2 (init_ring v sd))"
proof -
  have "same_layout (init_ring v sd) (init_ring v sd)"
    by (simp add: same_layout_def)
  from same_layout_add_nodes [OF assms this]
  have sl: "same_layout (add_nodes h64 calls1 (init_ring v sd)) (add_nodes h64 calls2 (init_ring v sd))" .
  then have "dump_tokens (add_nodes h64 calls1 (init_ring v sd)) =
           dump_tokens (add_nodes h64 calls2 (init_ring v sd))"
    by (simp add: same_layout_def)
  with same_layout_get_node [OF sl] show ?thesis by simp
qed

theorem layout_deterministic_witness:
  "map (\<lambda>(node_id, w, z). (node_id, w))
     [((ascii ''node-A''), 1 :: int, None), ((ascii ''node-B''), 2, Some (ascii ''eu''))] =
   map (\<lambda>(node_id, w, z). (node_id, w))
     [((ascii ''node-A''), 1, Some (ascii ''us'')), ((ascii ''node-B''), 2, None)] \<and>
   dump_tokens (add_nodes demo_hash
     [((ascii ''node-A''), 1, None), ((ascii ''node-B''), 2, Some (ascii ''eu''))] (init_ring 2 42)) =
   dump_tokens (add_nodes demo_hash
     [((ascii ''node-A''), 1, Some (ascii ''us'')), ((ascii ''node-B''), 2, None)] (init_ring 2 42)) \<and>
   get_node demo_hash ''k'' (add_nodes demo_hash
     [((ascii ''node-A''), 1, None), ((ascii ''node-B''), 2, Some (ascii ''eu''))] (init_ring 2 42)) =
   get_node demo_hash ''k'' (add_nodes demo_hash
     [((ascii ''node-A''), 1, Some (ascii ''us'')), ((ascii ''node-B''), 2, None)] (init_ring 2 42))"
proof -
  have h: "map (\<lambda>(node_id, w, z). (node_id, w))
       [((ascii ''node-A''), 1 :: int, None :: pystr option), ((ascii ''node-B''), 2, Some (ascii ''eu''))] =
     map (\<lambda>(node_id, w, z). (node_id, w))
       [((ascii ''node-A''), 1, Some (ascii ''us'')), ((ascii ''node-B''), 2, None)]"
    by simp
  note t = layout_deterministic [OF h, of demo_hash 2 42 "''k''"]
  from t have a: "dump_tokens (add_nodes demo_hash
       [((ascii ''node-A''), 1, None), ((ascii ''node-B''), 2, Some (ascii ''eu''))] (init_ring 2 42)) =
     dump_tokens (add_nodes demo_hash
       [((ascii ''node-A''), 1, Some (ascii ''us'')), ((ascii ''node-B''), 2, None)] (init_ring 2 42))"
    by (rule conjunct1)
  from t have b: "get_node demo_hash ''k'' (add_nodes demo_hash
       [((ascii ''node-A''), 1, None), ((ascii ''node-B''), 2, Some (ascii ''eu''))] (init_ring 2 42)) =
     get_node demo_hash ''k'' (add_nodes demo_hash
       [((ascii ''node-A''), 1, Some (ascii ''us'')), ((ascii ''node-B''), 2, None)] (init_ring 2 42))"
    by (rule conjunct2)
  from h a b show ?thesis by (intro conjI)
qed

section \<open>C9: the artifact rebalancer\<close>

lemma execute_keeps_filesystem:
  "execute h64 dist fs moved_artifacts ring_before = Some (e, fs') \<Longrightarrow> fs' = fs"
proof (induction moved_artifacts)
  case Nil
  then show ?case by simp
next
  case (Cons entry moved_artifacts)
  obtain key frm to where entry: "entry = (key, (frm, to))" by (cases entry) auto
  from Cons.prems show ?case
    unfolding entry
    by (auto split: option.splits sum.splits dest: Cons.IH)
qed

lemma execute_skips_missing:
  assumes "placement_with_ring h64 dist key ring_before = Some (Inr old_hosts)"
    and "read_first fs old_hosts key = None"
  shows "execute h64 dist fs ((key, (frm, to)) # moved_artifacts) ring_before =
         execute h64 dist fs moved_artifacts ring_before"
  using assms by simp

lemma execute_raises_on_blob:
  assumes "placement_with_ring h64 dist key ring_before = Some (Inr old_hosts)"
    and "read_first fs old_hosts key = Some blob"
  shows "execute h64 dist fs ((key, (frm, to)) # moved_artifacts) ring_before =
         Some (Some (AttributeError ''ArtifactDistributor object has no attribute distribute''), fs)"
  using assms by simp

lemma demo_old_placement:
  "placement_with_ring demo_hash demo_dist ''model:v1'' artifact_ring_before =
     Some (Inr [Some host_1])"
  by code_simp

lemma demo_blob_found: "read_first demo_fs [Some host_1] ''model:v1'' = Some ''blob''"
  by (simp add: host_get_def path_for_def path_join_def host_1_def demo_fs_def)

text \<open>
  C9. The claim says that \<open>execute\<close> writes every blob it obtained from the old placement
  to the new placement by calling \<^verbatim>\<open>distribute\<close> on the distributor. The plan below moves
  \<^verbatim>\<open>model:v1\<close> from \<^verbatim>\<open>host-1\<close> to \<^verbatim>\<open>host-2\<close>, and \<^verbatim>\<open>host-1\<close> holds its blob: the blob is
  read, the call of \<^verbatim>\<open>distribute\<close> raises \<^verbatim>\<open>AttributeError\<close>, and \<^verbatim>\<open>host-2\<close> still has no
  copy.
\<close>

theorem execute_raises_attribute_error:
  "execute demo_hash demo_dist demo_fs [(''model:v1'', (Some (ascii ''host-1''), Some (ascii ''host-2'')))]
     artifact_ring_before =
     Some (Some (AttributeError ''ArtifactDistributor object has no attribute distribute''), demo_fs) \<and>
   host_get demo_fs host_1 ''model:v1'' = Some ''blob'' \<and>
   host_get demo_fs host_2 ''model:v1'' = None"
proof -
  have "execute demo_hash demo_dist demo_fs [(''model:v1'', (Some (ascii ''host-1''), Some (ascii ''host-2'')))]
     artifact_ring_before =
     Some (Some (AttributeError ''ArtifactDistributor object has no attribute distribute''), demo_fs)"
    using demo_old_placement demo_blob_found by (rule execute_raises_on_blob)
  moreover have "host_get demo_fs host_1 ''model:v1'' = Some ''blob''"
    by (simp add: host_get_def path_for_def path_join_def host_1_def demo_fs_def)
  moreover have "host_get demo_fs host_2 ''model:v1'' = None"
    by (simp add: host_get_def path_for_def path_join_def host_2_def demo_fs_def)
  ultimately show ?thesis by (intro conjI)
qed

section \<open>C5: the clone\<close>

text \<open>
  C5. The claim says that \<open>r2 = r.clone()\<close> is an independent copy whose lookups stay what
  they were at clone time. Every ring object holds a \<^verbatim>\<open>threading.RLock\<close> in \<^verbatim>\<open>_lock\<close>, which
  \<^verbatim>\<open>copy.deepcopy\<close> cannot copy: \<open>clone\<close> raises \<^verbatim>\<open>TypeError\<close> on every ring and returns no
  clone at all.
\<close>

theorem clone_raises:
  "clone r = Inl (TypeError ''cannot pickle _thread.RLock object'')"
  by (simp add: clone_def instance_dict_def)

end
